theory Spec2Isabelle
  imports Complex_Main
begin

section \<open>The haplotype tree builder of happler\<close>

text \<open>
  A shallow embedding of \<^verbatim>\<open>happler/tree/tree_builder.py\<close>. The class
  \<^verbatim>\<open>TreeBuilder\<close> is a record of its attributes; its methods are functions that take
  the builder and return what the method returns together with what it mutates. An
  exception is a value of the type \<open>error\<close>; a method that can raise returns a sum
  whose left injection is the exception raised.

  Python integers are \<open>int\<close>, list positions and lengths are \<open>nat\<close>. A Python float
  is a finite IEEE 754 double, kept as the real number it denotes; the one float
  operation of the source, the division in \<^verbatim>\<open>check_terminate_branch\<close>, rounds its exact
  result to the nearest double.
\<close>

subsection \<open>Exceptions and Python indexing\<close>

datatype error =
    AssertionError
  | IndexError
  | ValueError
  | ZeroDivisionError
  | OverflowError
  | EngineFailure

text \<open>
  \<^verbatim>\<open>xs[i]\<close> on a sequence: a negative index counts from the end, an index outside
  \<open>[-len, len)\<close> raises \<^verbatim>\<open>IndexError\<close>.
\<close>

definition py_getitem :: "'a list \<Rightarrow> int \<Rightarrow> error + 'a" where
  "py_getitem xs i =
     (if 0 \<le> i \<and> i < int (length xs) then Inr (xs ! nat i)
      else if i < 0 \<and> - int (length xs) \<le> i then Inr (xs ! nat (int (length xs) + i))
      else Inl IndexError)"

subsection \<open>Python floats\<close>

text \<open>
  The finite doubles are the reals \<open>m * 2 ^ e\<close> with \<open>\<bar>m\<bar> < 2 ^ 53\<close> and
  \<open>-1074 \<le> e \<le> 971\<close>. NaN and the infinities are not modelled: the specification
  takes p-values from \<open>[0, 1]\<close> and thresholds from \<open>(0, 1]\<close>.

  An arithmetic operation on doubles returns \<open>fl\<close> of its exact result: the nearest
  double, the one with the even significand when two are equally near. The spacing of
  the doubles around \<open>x\<close> is \<open>ulp x\<close>; it is \<open>2 ^ (e - 52)\<close> for \<open>2 ^ e \<le> \<bar>x\<bar> < 2 ^ (e + 1)\<close>
  and stays at \<open>2 ^ -1074\<close> below \<open>2 ^ -1022\<close>, where the doubles are subnormal.
\<close>

definition is_double :: "real \<Rightarrow> bool" where
  "is_double x = (\<exists>m e. x = of_int m * 2 powi e \<and> \<bar>m\<bar> < 2 ^ 53 \<and> - 1074 \<le> e \<and> e \<le> 971)"

definition round_half_even :: "real \<Rightarrow> int" where
  "round_half_even y =
     (if y - of_int \<lfloor>y\<rfloor> < 1 / 2 then \<lfloor>y\<rfloor>
      else if 1 / 2 < y - of_int \<lfloor>y\<rfloor> then \<lfloor>y\<rfloor> + 1
      else if even \<lfloor>y\<rfloor> then \<lfloor>y\<rfloor> else \<lfloor>y\<rfloor> + 1)"

definition float_exponent :: "real \<Rightarrow> int" where
  "float_exponent x = max \<lfloor>log 2 \<bar>x\<bar>\<rfloor> (- 1022)"

definition ulp :: "real \<Rightarrow> real" where
  "ulp x = 2 powi (float_exponent x - 52)"

definition fl :: "real \<Rightarrow> real" where
  "fl x = (if x = 0 then 0 else of_int (round_half_even (x / ulp x)) * ulp x)"

text \<open>
  The conversion of a Python integer to a float, as the division of a float by an
  integer performs it: the nearest double, or \<^verbatim>\<open>OverflowError\<close> when that would lie beyond
  the largest double.
\<close>

definition int_to_float :: "nat \<Rightarrow> error + real" where
  "int_to_float n = (if real n < 2 ^ 1024 - 2 ^ 970 then Inr (fl (real n)) else Inl OverflowError)"

subsection \<open>The collaborators of the builder\<close>

text \<open>
  Modelled from the spec: the classes \<^verbatim>\<open>Variant\<close>, \<^verbatim>\<open>Genotypes\<close>,
  \<^verbatim>\<open>Phenotypes\<close>, \<^verbatim>\<open>Haplotype\<close>, \<^verbatim>\<open>Tree\<close> and \<^verbatim>\<open>AssocTest\<close> are imported
  by the builder and defined in modules outside the sources at hand. Their shapes below
  follow the data model of the specification.

  A row of the variant table is an identifier and a position. A \<^verbatim>\<open>Variant\<close> is such a
  row together with its index on the variant axis of the genotype matrix.
\<close>

type_synonym np_variant = "string \<times> nat"

record Variant =
  idx :: int
  vid :: string
  pos :: nat

definition from_np :: "np_variant \<Rightarrow> int \<Rightarrow> Variant" where
  "from_np np_v i = \<lparr>idx = i, vid = fst np_v, pos = snd np_v\<rparr>"

text \<open>
  Modelled from the spec: the genotype matrix is indexed by (sample, variant, copy). It is
  kept here as the list of its columns along the variant axis; a column holds one pair
  per sample, the two chromosome copies. \<open>variants\<close> is the variant table.
\<close>

record Genotypes =
  data :: "(bool \<times> bool) list list"
  variants :: "np_variant list"

text \<open>
  \<^verbatim>\<open>gens.data[:, i, allele]\<close>: the column \<open>i\<close> of the matrix (Python indexing),
  restricted to the copy \<open>allele\<close> of every sample. The last axis has length two.
\<close>

definition data_column :: "Genotypes \<Rightarrow> int \<Rightarrow> nat \<Rightarrow> error + bool list" where
  "data_column g i allele =
     (case py_getitem (data g) i of
        Inl e \<Rightarrow> Inl e
      | Inr col \<Rightarrow>
          if allele = 0 then Inr (map fst col)
          else if allele = 1 then Inr (map snd col)
          else Inl IndexError)"

text \<open>
  Modelled from the spec: a \<^verbatim>\<open>Haplotype\<close> is an ordered sequence of (variant, allele)
  pairs and, per sample, whether the sample is consistent with all of them. Appending
  returns a new haplotype with one more pair; the vector is extended by the genotypes
  of the appended variant.
\<close>

record Haplotype =
  nodes :: "(Variant \<times> nat) list"
  hap_data :: "bool list"

definition from_node :: "Variant \<Rightarrow> nat \<Rightarrow> bool list \<Rightarrow> Haplotype" where
  "from_node node allele variant_genotypes =
     \<lparr>nodes = [(node, allele)], hap_data = variant_genotypes\<rparr>"

definition append_hap :: "Haplotype \<Rightarrow> Variant \<Rightarrow> nat \<Rightarrow> bool list \<Rightarrow> Haplotype" where
  "append_hap h node allele variant_genotypes =
     \<lparr>nodes = nodes h @ [(node, allele)],
      hap_data = map2 (\<and>) (hap_data h) variant_genotypes\<rparr>"

definition node_indices :: "Haplotype \<Rightarrow> int list" where
  "node_indices h = map (\<lambda>n. idx (fst n)) (nodes h)"

text \<open>
  Modelled from the spec: the Haplotype Transform keeps one column per variant that is
  not already in the haplotype (a column at position \<open>j\<close> is dropped when \<open>j\<close> is the
  index of one of the haplotype's variants), keeps the copy dimension, and restricts
  every column to the samples consistent with the haplotype.
\<close>

definition candidate_columns :: "Haplotype \<Rightarrow> Genotypes \<Rightarrow> nat list" where
  "candidate_columns h g =
     filter (\<lambda>j. int j \<notin> set (node_indices h)) [0 ..< length (data g)]"

definition transform :: "Haplotype \<Rightarrow> Genotypes \<Rightarrow> (bool \<times> bool) list list" where
  "transform h g =
     map (\<lambda>j. map2 (\<lambda>m c. (fst c \<and> m, snd c \<and> m)) (hap_data h) (data g ! j))
       (candidate_columns h g)"

text \<open>
  \<^verbatim>\<open>hap_matrix.sum(axis=2)\<close>: the dosage of every sample in every column.
\<close>

definition sum_axis2 :: "(bool \<times> bool) list list \<Rightarrow> nat list list" where
  "sum_axis2 m = map (map (\<lambda>c. of_bool (fst c) + of_bool (snd c))) m"

text \<open>
  Modelled from the spec: the Association Test Engine is an object with a significance
  threshold and a method \<^verbatim>\<open>run(dosages, phenotypes)\<close> that returns one record per
  candidate column, with at least an effect and a p-value. The engine may keep state of
  its own between calls (the type \<open>'s\<close>), and it may fail: \<open>None\<close> stands for an
  exception raised inside the engine, which the builder sees as \<open>EngineFailure\<close>.
\<close>

record assoc_result =
  beta :: real
  pval :: real

record 's AssocTest =
  pval_thresh :: real
  method_run :: "'s \<Rightarrow> nat list list \<Rightarrow> real list \<Rightarrow> assoc_result list option \<times> 's"

text \<open>
  Modelled from the spec: the \<^verbatim>\<open>Tree\<close> owns an arena of nodes. A node carries its
  variant, the index of its parent, the allele of its incoming edge and the test result
  that led to it; the root has none of the last three. \<^verbatim>\<open>add_node\<close> appends one node
  and returns its index, and fails when the parent index is out of range.
\<close>

record Node =
  node_variant :: Variant
  node_parent :: "nat option"
  node_allele :: "nat option"
  node_results :: "assoc_result option"

type_synonym Tree = "Node list"

definition new_tree :: "Variant \<Rightarrow> Tree" where
  "new_tree root_node =
     [\<lparr>node_variant = root_node, node_parent = None, node_allele = None, node_results = None\<rparr>]"

definition add_node ::
  "Tree \<Rightarrow> Variant \<Rightarrow> nat \<Rightarrow> nat \<Rightarrow> assoc_result option \<Rightarrow> error + (Tree \<times> nat)" where
  "add_node t node parent_idx allele results =
     (if parent_idx < length t
      then Inr (t @ [\<lparr>node_variant = node, node_parent = Some parent_idx,
                      node_allele = Some allele, node_results = results\<rparr>], length t)
      else Inl IndexError)"

subsection \<open>The builder\<close>

text \<open>
  The attributes of the builder. The attribute \<^verbatim>\<open>method\<close> of the source is the field
  \<open>test_method\<close>.
\<close>

record 's TreeBuilder =
  gens :: Genotypes
  phens :: "real list" test_method :: "'s AssocTest"
  tree :: "Tree option"

text \<open>
  \<^verbatim>\<open>check_terminate_branch(pval, num_tests)\<close>. The threshold is a Python float and
  \<^verbatim>\<open>num_tests\<close> a Python integer: the division converts the integer to a float, raises
  \<^verbatim>\<open>ZeroDivisionError\<close> when that is zero, and otherwise returns the quotient rounded
  to the nearest double. The comparison of two floats is exact.
\<close>

definition check_terminate_branch :: "'s TreeBuilder \<Rightarrow> real \<Rightarrow> nat \<Rightarrow> error + bool" where
  "check_terminate_branch b p num_tests =
     (case int_to_float num_tests of
        Inl e \<Rightarrow> Inl e
      | Inr d \<Rightarrow>
          if d = 0 then Inl ZeroDivisionError
          else Inr (p \<ge> fl (pval_thresh (test_method b) / d)))"

text \<open>
  \<^verbatim>\<open>p_values.argmin()\<close> of numpy: the position of the first occurrence of the least
  entry; \<^verbatim>\<open>ValueError\<close> on an empty array. \<open>argmin_loop ps k bi bv\<close> scans the rest
  \<open>ps\<close> of the array from position \<open>k\<close>, with \<open>bv\<close> at position \<open>bi\<close> the least entry
  so far.
\<close>

fun argmin_loop :: "real list \<Rightarrow> nat \<Rightarrow> nat \<Rightarrow> real \<Rightarrow> nat" where
  "argmin_loop [] k bi bv = bi"
| "argmin_loop (p # ps) k bi bv =
     (if p < bv then argmin_loop ps (Suc k) k p else argmin_loop ps (Suc k) bi bv)"

definition argmin :: "real list \<Rightarrow> error + nat" where
  "argmin ps = (case ps of [] \<Rightarrow> Inl ValueError | p # rest \<Rightarrow> Inr (argmin_loop rest 1 0 p))"

text \<open>
  Step 5 of \<^verbatim>\<open>_find_split\<close>: the loop over \<^verbatim>\<open>sorted(parent.node_indices)\<close>.
  \<open>add_back gt_idxs best_p_idx\<close> runs the loop on the indices still to visit; the
  \<^verbatim>\<open>break\<close> leaves it with the running index.
\<close>

fun add_back :: "int list \<Rightarrow> int \<Rightarrow> int" where
  "add_back [] best_p_idx = best_p_idx"
| "add_back (gt_idx # rest) best_p_idx =
     (if gt_idx > best_p_idx then best_p_idx else add_back rest (best_p_idx + 1))"

definition translate_index :: "Haplotype \<Rightarrow> nat \<Rightarrow> int" where
  "translate_index parent best_p_idx = add_back (sort (node_indices parent)) (int best_p_idx)"

text \<open>
  \<^verbatim>\<open>_find_split(parent, parent_idx, allele)\<close>. It reads the builder and calls the
  engine, whose state \<open>s\<close> it returns updated. The result is the pair
  (best variant, best result) of the source, either of which may be \<^verbatim>\<open>None\<close>.
\<close>

definition find_split ::
  "'s TreeBuilder \<Rightarrow> Haplotype \<Rightarrow> nat \<Rightarrow> nat \<Rightarrow> 's
     \<Rightarrow> (error + (Variant option \<times> assoc_result option)) \<times> 's" where
  "find_split b parent parent_idx allele s =
     (let hap_matrix = transform parent (gens b) in
      if length hap_matrix = 0 then (Inr (None, None), s)
      else
        case method_run (test_method b) s (sum_axis2 hap_matrix) (phens b) of
          (None, s') \<Rightarrow> (Inl EngineFailure, s')
        | (Some results, s') \<Rightarrow>
            let p_values = map pval results in
            (case argmin p_values of
               Inl e \<Rightarrow> (Inl e, s')
             | Inr best_p_idx \<Rightarrow>
                 let best = results ! best_p_idx in
                 (case check_terminate_branch b (pval best) (length p_values) of
                    Inl e \<Rightarrow> (Inl e, s')
                  | Inr True \<Rightarrow> (Inr (None, Some best), s')
                  | Inr False \<Rightarrow>
                      let true_idx = translate_index parent best_p_idx in
                      (case py_getitem (variants (gens b)) true_idx of
                         Inl e \<Rightarrow> (Inl e, s')
                       | Inr np_v \<Rightarrow> (Inr (Some (from_np np_v true_idx), Some best), s')))))"

text \<open>
  The variants that a haplotype leaves to choose from: the positions of the variant
  table that are not the index of one of its variants.
\<close>

definition remaining :: "Genotypes \<Rightarrow> int list \<Rightarrow> nat" where
  "remaining g ixs = card {j. j < length (variants g) \<and> int j \<notin> set ixs}"

definition indices_upto :: "Haplotype option \<Rightarrow> Variant \<Rightarrow> int list" where
  "indices_upto parent_hap parent =
     (case parent_hap of None \<Rightarrow> [] | Some h \<Rightarrow> node_indices h) @ [idx parent]"

text \<open>
  \<^verbatim>\<open>_create_tree(parent, parent_hap, parent_idx)\<close>. The tree of the builder and the state
  of the engine are what it mutates, so they are passed in and returned as the pair
  \<open>st\<close>; the builder \<open>b\<close> is read for its genotypes, its phenotypes and its engine
  only. The first component of the result is the exception that left the call, if any;
  the tree and the engine are then as the exception found them. The loop over
  \<^verbatim>\<open>alleles = (0, 1)\<close> is the recursion over the list of alleles still to visit.
\<close>

function create_tree_loop ::
  "'s TreeBuilder \<Rightarrow> nat list \<Rightarrow> Variant \<Rightarrow> Haplotype option \<Rightarrow> nat \<Rightarrow> Tree \<times> 's
     \<Rightarrow> error option \<times> Tree \<times> 's" where
  "create_tree_loop b [] parent parent_hap parent_idx st = (None, st)"
| "create_tree_loop b (allele # alleles) parent parent_hap parent_idx st =
     (case data_column (gens b) (idx parent) allele of
        Inl e \<Rightarrow> (Some e, st)
      | Inr variant_gts \<Rightarrow>
          let new_parent_hap =
                (case parent_hap of
                   None \<Rightarrow> from_node parent allele variant_gts
                 | Some h \<Rightarrow> append_hap h parent allele variant_gts)
          in
          (case find_split b new_parent_hap parent_idx allele (snd st) of
             (Inl e, s') \<Rightarrow> (Some e, fst st, s')
           | (Inr (None, results), s') \<Rightarrow>
               create_tree_loop b alleles parent parent_hap parent_idx (fst st, s')
           | (Inr (Some best_variant, results), s') \<Rightarrow>
               (case add_node (fst st) best_variant parent_idx allele results of
                  Inl e \<Rightarrow> (Some e, fst st, s')
                | Inr (t', new_node_idx) \<Rightarrow>
                    (case create_tree_loop b [0, 1] best_variant (Some new_parent_hap)
                            new_node_idx (t', s') of
                       (Some e, st') \<Rightarrow> (Some e, st')
                     | (None, st') \<Rightarrow>
                         create_tree_loop b alleles parent parent_hap parent_idx st'))))"
  by pat_completeness auto

definition create_tree ::
  "'s TreeBuilder \<Rightarrow> Variant \<Rightarrow> Haplotype option \<Rightarrow> nat \<Rightarrow> Tree \<times> 's
     \<Rightarrow> error option \<times> Tree \<times> 's" where
  "create_tree b parent parent_hap parent_idx st =
     create_tree_loop b [0, 1] parent parent_hap parent_idx st"

text \<open>
  \<^verbatim>\<open>run(root)\<close>. The result is the tree returned or the exception raised, the builder
  as the call leaves it, and the state of the engine.
\<close>

definition run :: "'s TreeBuilder \<Rightarrow> int \<Rightarrow> 's \<Rightarrow> (error + Tree) \<times> 's TreeBuilder \<times> 's" where
  "run b root_idx s =
     (if tree b \<noteq> None then (Inl AssertionError, b, s)
      else
        case py_getitem (variants (gens b)) root_idx of
          Inl e \<Rightarrow> (Inl e, b, s)
        | Inr np_v \<Rightarrow>
            let root_node = from_np np_v root_idx in
            (case create_tree b root_node None 0 (new_tree root_node, s) of
               (Some e, t, s') \<Rightarrow> (Inl e, b\<lparr>tree := Some t\<rparr>, s')
             | (None, t, s') \<Rightarrow> (Inr t, b\<lparr>tree := Some t\<rparr>, s')))"

subsection \<open>A worked scenario\<close>

text \<open>
  Two samples and three variants. The second and third variant have the same genotypes,
  so their candidates tie wherever both are tested. The engine \<open>ex_run\<close> gives a
  candidate the p-value \<open>1 / 1024\<close> when its dosages equal the phenotypes and 1
  otherwise; its state counts the calls made to it. The threshold is \<open>1 / 16\<close>. All
  these numbers are doubles. The engine \<open>flaky_run\<close> is the same engine,
  except that it fails on a matrix of exactly one column.
\<close>

definition ex_gens :: Genotypes where
  "ex_gens =
     \<lparr>data = [[(False, True), (False, True)],
               [(True, False), (True, True)],
               [(True, False), (True, True)]],
      variants = [(''rs0'', 100), (''rs1'', 200), (''rs2'', 300)]\<rparr>"

definition ex_pval :: "nat list \<Rightarrow> real list \<Rightarrow> real" where
  "ex_pval col ph = (if map real col = ph then 1 / 1024 else 1)"

definition ex_run :: "nat \<Rightarrow> nat list list \<Rightarrow> real list \<Rightarrow> assoc_result list option \<times> nat" where
  "ex_run calls m ph = (Some (map (\<lambda>col. \<lparr>beta = 1, pval = ex_pval col ph\<rparr>) m), Suc calls)"

definition flaky_run :: "nat \<Rightarrow> nat list list \<Rightarrow> real list \<Rightarrow> assoc_result list option \<times> nat" where
  "flaky_run calls m ph = (if length m = 1 then (None, Suc calls) else ex_run calls m ph)"

definition ex_builder :: "nat TreeBuilder" where
  "ex_builder =
     \<lparr>gens = ex_gens, phens = [1, 2], test_method = \<lparr>pval_thresh = 1 / 16, method_run = ex_run\<rparr>,
      tree = None\<rparr>"

definition flaky_builder :: "nat TreeBuilder" where
  "flaky_builder =
     \<lparr>gens = ex_gens, phens = [1, 2], test_method = \<lparr>pval_thresh = 1 / 16, method_run = flaky_run\<rparr>,
      tree = None\<rparr>"

definition ex_variant :: "nat \<Rightarrow> Variant" where
  "ex_variant j = from_np (variants ex_gens ! j) (int j)"

definition ex_hit :: "assoc_result option" where
  "ex_hit = Some \<lparr>beta = 1, pval = 1 / 1024\<rparr>"

definition ex_tree :: Tree where
  "ex_tree =
     [\<lparr>node_variant = ex_variant 0, node_parent = None, node_allele = None,
        node_results = None\<rparr>,
      \<lparr>node_variant = ex_variant 1, node_parent = Some 0, node_allele = Some 1,
        node_results = ex_hit\<rparr>,
      \<lparr>node_variant = ex_variant 2, node_parent = Some 1, node_allele = Some 0,
        node_results = ex_hit\<rparr>]"

text \<open>
  A builder with the threshold 0.05, that is, with the double nearest to it, and the
  double nearest to a third of this threshold.
\<close>

definition double_005 :: real where
  "double_005 = 3602879701896397 / 72057594037927936"

definition third_of_005 :: real where
  "third_of_005 = 4803839602528529 / 288230376151711744"

definition builder_005 :: "nat TreeBuilder" where
  "builder_005 =
     \<lparr>gens = ex_gens, phens = [1, 2], test_method = \<lparr>pval_thresh = double_005, method_run = ex_run\<rparr>,
      tree = None\<rparr>"

text \<open>
  A haplotype over the variants 5, 2 and 7, in the order in which a path of the tree
  could have picked them.
\<close>

definition hap_257 :: Haplotype where
  "hap_257 =
     \<lparr>nodes = [(\<lparr>idx = 5, vid = ''rs5'', pos = 600\<rparr>, 1),
               (\<lparr>idx = 2, vid = ''rs2'', pos = 300\<rparr>, 0),
               (\<lparr>idx = 7, vid = ''rs7'', pos = 800\<rparr>, 1)],
      hap_data = [True, False]\<rparr>"

text \<open>
  The two haplotypes on the path of the scenario's tree: variant 0 with allele 1, then
  variant 1 with allele 0.
\<close>

definition ex_hap_1 :: Haplotype where
  "ex_hap_1 = from_node (ex_variant 0) 1 [True, True]"

definition ex_hap_10 :: Haplotype where
  "ex_hap_10 = append_hap ex_hap_1 (ex_variant 1) 0 [True, True]"

subsection \<open>Properties of trees and engines\<close>

text \<open>
  The arena of a tree is valid when the node at index 0 is the only one without a
  parent, every other node has a parent at a smaller index, and no two nodes occupy the
  same (parent index, allele) slot. \<open>parents_ok_from i ns\<close> checks the first two for
  the nodes \<open>ns\<close> stored from index \<open>i\<close> on.
\<close>

fun parents_ok_from :: "nat \<Rightarrow> Node list \<Rightarrow> bool" where
  "parents_ok_from i [] = True"
| "parents_ok_from i (n # ns) =
     ((case node_parent n of None \<Rightarrow> i = 0 | Some p \<Rightarrow> p < i) \<and> parents_ok_from (Suc i) ns)"

definition slot :: "Node \<Rightarrow> nat option \<times> nat option" where
  "slot n = (node_parent n, node_allele n)"

definition arena_ok :: "Tree \<Rightarrow> bool" where
  "arena_ok t = (parents_ok_from 0 t \<and> distinct (map slot t))"

text \<open>
  An engine is deterministic when what it returns depends on its arguments only, not on
  the state that earlier calls have left in it.
\<close>

definition deterministic :: "'s AssocTest \<Rightarrow> bool" where
  "deterministic m = (\<forall>s s' dosages ph. fst (method_run m s dosages ph) = fst (method_run m s' dosages ph))"

text \<open>
  Two notions for the proof that the arena stays valid. \<open>free_slots parent_idx alleles t\<close>:
  no node of \<open>t\<close> hangs under \<open>parent_idx\<close> by one of the \<open>alleles\<close>.
  \<open>grown parent_idx alleles t t'\<close>: the tree \<open>t'\<close> is \<open>t\<close> followed by new nodes, each
  of which hangs under \<open>parent_idx\<close> by one of the \<open>alleles\<close> or under one of the new
  nodes.
\<close>

definition free_slots :: "nat \<Rightarrow> nat list \<Rightarrow> Tree \<Rightarrow> bool" where
  "free_slots parent_idx alleles t =
     (\<forall>n\<in>set t. node_parent n = Some parent_idx \<longrightarrow> node_allele n \<notin> Some ` set alleles)"

definition grown :: "nat \<Rightarrow> nat list \<Rightarrow> Tree \<Rightarrow> Tree \<Rightarrow> bool" where
  "grown parent_idx alleles t t' =
     (\<exists>ext. t' = t @ ext \<and>
        (\<forall>n\<in>set ext. \<exists>p. node_parent n = Some p \<and>
           ((p = parent_idx \<and> node_allele n \<in> Some ` set alleles) \<or> length t \<le> p)))"

subsection \<open>Termination of the recursion\<close>

text \<open>
  The index that step 5 computes is never below the compacted index and is never one
  of the indices of the haplotype.
\<close>

lemma add_back_ge: "i \<le> add_back gs i"
proof (induction gs arbitrary: i)
  case Nil
  then show ?case by simp
next
  case (Cons g gs)
  have "i + 1 \<le> add_back gs (i + 1)" by (rule Cons.IH)
  then show ?case by simp
qed

lemma add_back_notin_sorted: "sorted gs \<Longrightarrow> add_back gs i \<notin> set gs"
proof (induction gs arbitrary: i)
  case Nil
  then show ?case by simp
next
  case (Cons g gs)
  show ?case
  proof (cases "g > i")
    case True
    with Cons.prems show ?thesis by auto
  next
    case False
    have "i + 1 \<le> add_back gs (i + 1)" by (rule add_back_ge)
    with False have "add_back gs (i + 1) \<noteq> g" by linarith
    moreover from Cons have "add_back gs (i + 1) \<notin> set gs" by simp
    ultimately show ?thesis using False by simp
  qed
qed

lemma translate_index_fresh:
  "translate_index h k \<notin> set (node_indices h)" "0 \<le> translate_index h k"
  using add_back_notin_sorted[of "sort (node_indices h)" "int k"]
    add_back_ge[of "int k" "sort (node_indices h)"]
  by (auto simp: translate_index_def)

lemma py_getitem_Inr_nonneg:
  "py_getitem xs i = Inr x \<Longrightarrow> 0 \<le> i \<Longrightarrow> i < int (length xs)"
  by (auto simp: py_getitem_def split: if_splits)

lemma find_split_Some:
  assumes "find_split b h pidx a s = (Inr (Some v, r), s')"
  shows "0 \<le> idx v" "idx v < int (length (variants (gens b)))"
    "idx v \<notin> set (node_indices h)"
  using assms translate_index_fresh[of h]
  by (auto simp: find_split_def Let_def from_np_def
      split: if_splits prod.splits option.splits sum.splits bool.splits
      dest: py_getitem_Inr_nonneg)

lemma remaining_less:
  assumes "0 \<le> v" "v < int (length (variants g))" "v \<notin> set ixs"
  shows "remaining g (ixs @ [v]) < remaining g ixs"
proof -
  let ?A = "{j. j < length (variants g) \<and> int j \<notin> set (ixs @ [v])}"
  let ?B = "{j. j < length (variants g) \<and> int j \<notin> set ixs}"
  have "nat v \<in> ?B" "nat v \<notin> ?A" using assms by auto
  moreover have "?A \<subseteq> ?B" by auto
  ultimately have "?A \<subset> ?B" by blast
  moreover have "finite ?B" by simp
  ultimately show ?thesis unfolding remaining_def by (rule psubset_card_mono[rotated])
qed

lemma node_indices_new:
  "node_indices (case ph of None \<Rightarrow> from_node p a gts | Some h \<Rightarrow> append_hap h p a gts)
     = indices_upto ph p"
  by (auto simp: node_indices_def from_node_def append_hap_def indices_upto_def
      split: option.splits)

lemma indices_upto_Some: "indices_upto (Some h) v = node_indices h @ [idx v]"
  by (simp add: indices_upto_def)

lemma recursive_call_decreases:
  assumes "x = (case parent_hap of None \<Rightarrow> from_node parent allele gts
                | Some h \<Rightarrow> append_hap h parent allele gts)"
    and "(xa, y) = find_split b x pidx allele s" "xa = Inr baa" "(xaa, ya) = baa" "xaa = Some v"
  shows "remaining (gens b) (indices_upto (Some x) v)
           < remaining (gens b) (indices_upto parent_hap parent)"
proof -
  have fs: "find_split b x pidx allele s = (Inr (Some v, ya), y)"
    using assms(2-5) by simp
  have "node_indices x = indices_upto parent_hap parent"
    unfolding assms(1) by (rule node_indices_new)
  with find_split_Some[OF fs] show ?thesis
    by (simp add: indices_upto_Some remaining_less)
qed

text \<open>
  The recursion is well-founded: a recursive call for the next allele keeps the
  haplotype and shortens the list of alleles, a recursive call under a new node has
  fewer variants left to choose from.
\<close>

lemma create_tree_loop_total: "All create_tree_loop_dom"
proof (relation "inv_image (less_than <*lex*> less_than)
    (\<lambda>(b, alleles, parent, parent_hap, parent_idx, st).
       (remaining (gens b) (indices_upto parent_hap parent), length alleles))", goal_cases)
  case 1
  then show ?case by (intro wf_inv_image wf_lex_prod wf_less_than)
next
  case 2
  then show ?case by simp
next
  case 3
  show ?case using recursive_call_decreases[OF 3(2,3,4,5,6)] by simp
next
  case 4
  then show ?case by simp
qed

termination create_tree_loop
  by (rule create_tree_loop_total)

subsection \<open>Rounding to the nearest double\<close>

text \<open>
  What the proofs need of \<open>fl\<close>: it leaves a double as it is, and it never rounds
  past a double, because every double at least as large as \<open>q\<close> in absolute value is
  a multiple of \<open>ulp q\<close>.
\<close>

lemma round_half_even_of_int: "round_half_even (of_int k) = k"
  by (simp add: round_half_even_def)

lemma round_half_even_le: "y \<le> of_int k \<Longrightarrow> round_half_even y \<le> k"
proof -
  assume y: "y \<le> of_int k"
  then have f: "\<lfloor>y\<rfloor> \<le> k" by (simp add: floor_le_iff) 
  show ?thesis
  proof (cases "y = of_int \<lfloor>y\<rfloor>")
    case True
    then have "round_half_even y = \<lfloor>y\<rfloor>" by (simp add: round_half_even_def)
    with f show ?thesis by simp
  next
    case False
    have "\<lfloor>y\<rfloor> \<noteq> k"
    proof
      assume k: "\<lfloor>y\<rfloor> = k"
      have "of_int \<lfloor>y\<rfloor> \<le> y" by (rule of_int_floor_le)
      with y k have "y = of_int \<lfloor>y\<rfloor>" by simp
      with False show False by simp
    qed
    with f have "\<lfloor>y\<rfloor> + 1 \<le> k" by simp
    moreover have "round_half_even y \<le> \<lfloor>y\<rfloor> + 1" by (simp add: round_half_even_def)
    ultimately show ?thesis by simp
  qed
qed

lemma round_half_even_ge: "of_int k \<le> y \<Longrightarrow> k \<le> round_half_even y"
proof -
  assume "of_int k \<le> y"
  then have "k \<le> \<lfloor>y\<rfloor>" by (simp add: le_floor_iff)
  moreover have "\<lfloor>y\<rfloor> \<le> round_half_even y" by (simp add: round_half_even_def)
  ultimately show ?thesis by simp
qed

lemma powi_floor_log_le: "0 < x \<Longrightarrow> 2 powi \<lfloor>log 2 x\<rfloor> \<le> (x::real)"
proof -
  assume x: "0 < x"
  have "2 powr (of_int \<lfloor>log 2 x\<rfloor>) \<le> x"
    using le_log_iff[of 2 x "of_int \<lfloor>log 2 x\<rfloor>"] x by simp
  then show ?thesis by (simp add: powr_real_of_int')
qed

lemma less_powi_floor_log: "0 < x \<Longrightarrow> (x::real) < 2 powi (\<lfloor>log 2 x\<rfloor> + 1)"
proof -
  assume x: "0 < x"
  have "log 2 x < of_int (\<lfloor>log 2 x\<rfloor> + 1)" by simp
  moreover have "(log 2 x < of_int (\<lfloor>log 2 x\<rfloor> + 1)) = (x < 2 powr of_int (\<lfloor>log 2 x\<rfloor> + 1))"
    by (rule log_less_iff) (use x in simp_all)
  ultimately have "x < 2 powr of_int (\<lfloor>log 2 x\<rfloor> + 1)" by blast
  then show ?thesis by (simp only: powr_real_of_int'[of 2, simplified])
qed

lemma floor_log_eqI:
  assumes "2 powi k \<le> (x::real)" "x < 2 powi (k + 1)"
  shows "\<lfloor>log 2 x\<rfloor> = k"
proof -
  have x: "0 < x" using assms(1) zero_less_power_int[of "2::real" k] by linarith
  have "2 powi k < (2::real) powi (\<lfloor>log 2 x\<rfloor> + 1)"
    using assms(1) less_powi_floor_log[OF x] by linarith
  then have "k < \<lfloor>log 2 x\<rfloor> + 1"
    using power_int_increasing[of "\<lfloor>log 2 x\<rfloor> + 1" k "2::real"] by (cases "k < \<lfloor>log 2 x\<rfloor> + 1") auto
  moreover have "2 powi \<lfloor>log 2 x\<rfloor> < (2::real) powi (k + 1)"
    using assms(2) powi_floor_log_le[OF x] by linarith
  then have "\<lfloor>log 2 x\<rfloor> < k + 1"
    using power_int_increasing[of "k + 1" "\<lfloor>log 2 x\<rfloor>" "2::real"] by (cases "\<lfloor>log 2 x\<rfloor> < k + 1") auto
  ultimately show ?thesis by simp
qed


lemma powi_less_imp_less: "(2::real) powi a < 2 powi b \<Longrightarrow> a < b"
  using power_int_increasing[of b a "2::real"] by (cases "a < b") auto

lemma float_exponent_le: "x \<noteq> 0 \<Longrightarrow> - 1022 < float_exponent x \<Longrightarrow> 2 powi float_exponent x \<le> \<bar>x\<bar>"
  using powi_floor_log_le[of "\<bar>x\<bar>"] by (auto simp: float_exponent_def max_def split: if_splits)

lemma double_multiple_of_ulp:
  assumes "is_double p" "q \<noteq> 0" "\<bar>q\<bar> \<le> \<bar>p\<bar>"
  shows "\<exists>K. p = of_int K * ulp q"
proof -
  from assms(1) obtain m a where p: "p = of_int m * 2 powi a" and m: "\<bar>m\<bar> < 2 ^ 53"
    and a: "- 1074 \<le> a"
    unfolding is_double_def by blast
  let ?E = "float_exponent q"
  have E: "?E - 52 \<le> a"
  proof (cases "- 1022 < ?E")
    case False
    moreover have "- 1022 \<le> ?E" by (simp add: float_exponent_def)
    ultimately show ?thesis using a by simp
  next
    case True
    have "2 powi ?E \<le> \<bar>q\<bar>" by (rule float_exponent_le[OF assms(2) True])
    also have "\<dots> \<le> \<bar>p\<bar>" by (rule assms(3))
    also have "\<bar>p\<bar> = of_int \<bar>m\<bar> * 2 powi a"
      by (simp add: p abs_mult)
    also have "\<dots> < 2 ^ 53 * 2 powi a"
    proof (rule mult_strict_right_mono)
      from m have "real_of_int \<bar>m\<bar> < real_of_int (2 ^ 53)" by (simp only: of_int_less_iff)
      then show "real_of_int \<bar>m\<bar> < 2 ^ 53" by simp
      show "0 < (2::real) powi a" by simp
    qed
    also have "\<dots> = 2 powi (53 + a)"
      by (simp add: power_int_add)
    finally have "?E < 53 + a" by (rule powi_less_imp_less)
    then show ?thesis by simp
  qed
  define d where "d = nat (a - (?E - 52))"
  have "a = int d + (?E - 52)" using E by (simp add: d_def)
  then have "(2::real) powi a = 2 ^ d * 2 powi (?E - 52)"
    by (simp add: power_int_add)
  then have "p = of_int (m * 2 ^ d) * ulp q"
    by (simp add: p ulp_def)
  then show ?thesis by blast
qed

lemma ulp_pos: "0 < ulp x"
  by (simp add: ulp_def)

lemma fl_double: "is_double x \<Longrightarrow> fl x = x"
proof (cases "x = 0")
  case True
  then show ?thesis by (simp add: fl_def)
next
  case False
  assume "is_double x"
  from double_multiple_of_ulp[OF this False order_refl] obtain K where K: "x = of_int K * ulp x"
    by blast
  have "x / ulp x = of_int K"
    using ulp_pos[of x] by (subst K) simp
  then have "round_half_even (x / ulp x) = K" by (simp add: round_half_even_of_int)
  with K False show ?thesis by (simp add: fl_def)
qed

lemma fl_le_double:
  assumes "is_double p" "0 < q" "q \<le> p"
  shows "fl q \<le> p"
proof -
  from assms have "q \<noteq> 0" "\<bar>q\<bar> \<le> \<bar>p\<bar>" by auto
  from double_multiple_of_ulp[OF assms(1) this] obtain K where K: "p = of_int K * ulp q"
    by blast
  have "q / ulp q \<le> of_int K"
    using assms(3) ulp_pos[of q] by (simp add: K pos_divide_le_eq)
  then have "round_half_even (q / ulp q) \<le> K" by (rule round_half_even_le)
  then have "of_int (round_half_even (q / ulp q)) * ulp q \<le> of_int K * ulp q"
    using ulp_pos[of q] by (simp add: mult_le_cancel_right)
  with K \<open>q \<noteq> 0\<close> show ?thesis by (simp add: fl_def)
qed

lemma fl_pos: assumes "1 \<le> x" shows "0 < fl x"
proof -
  have nn: "\<lfloor>log 2 x\<rfloor> \<ge> 0" using assms by simp
  have "\<bar>x\<bar> = x" using assms by simp
  moreover from nn have "max \<lfloor>log 2 x\<rfloor> (- 1022) = \<lfloor>log 2 x\<rfloor>" by linarith
  ultimately have E: "float_exponent x = \<lfloor>log 2 x\<rfloor>"
    by (simp only: float_exponent_def)
  have "ulp x \<le> 2 powi float_exponent x"
    unfolding ulp_def by (rule power_int_increasing) simp_all
  also have "\<dots> \<le> x" using powi_floor_log_le[of x] assms E by simp
  finally have "of_int 1 \<le> x / ulp x" using ulp_pos[of x] by (simp add: pos_le_divide_eq)
  then have "1 \<le> round_half_even (x / ulp x)" by (rule round_half_even_ge)
  then have "0 < real_of_int (round_half_even (x / ulp x))" by simp
  then show ?thesis using assms ulp_pos[of x] by (simp add: fl_def)
qed

lemma is_double_of_nat:
  assumes "n < 2 ^ 53"
  shows "is_double (real n)"
proof -
  from assms have "int n < int (2 ^ 53)" by (simp only: of_nat_less_iff)
  then have "\<bar>int n\<bar> < 2 ^ 53" by simp
  moreover have "real n = of_int (int n) * 2 powi 0" by simp
  moreover have "- 1074 \<le> (0::int) \<and> (0::int) \<le> 971" by simp
  ultimately show ?thesis unfolding is_double_def by blast
qed

lemma fl_eval:
  assumes "2 powi k \<le> \<bar>x\<bar>" "\<bar>x\<bar> < 2 powi (k + 1)" "- 1022 \<le> k"
  shows "fl x = of_int (round_half_even (x / 2 powi (k - 52))) * 2 powi (k - 52)"
proof -
  have "\<lfloor>log 2 \<bar>x\<bar>\<rfloor> = k" by (rule floor_log_eqI[OF assms(1,2)])
  then have "ulp x = 2 powi (k - 52)" using assms(3) by (simp add: ulp_def float_exponent_def)
  moreover have "x \<noteq> 0"
  proof
    assume "x = 0"
    with assms(1) have "2 powi k \<le> (0::real)" by simp
    moreover have "0 < (2::real) powi k" by simp
    ultimately show False by linarith
  qed
  ultimately show ?thesis by (simp add: fl_def)
qed

lemma int_to_float_small: "n < 2 ^ 53 \<Longrightarrow> int_to_float n = Inr (real n)"
proof -
  assume n: "n < 2 ^ 53"
  then have "real n < real (2 ^ 53)" by (simp only: of_nat_less_iff)
  then have "real n < 2 ^ 1024 - 2 ^ 970" by simp
  then show ?thesis using n by (simp add: int_to_float_def fl_double is_double_of_nat)
qed

lemma int_to_float_nonzero: "1 \<le> n \<Longrightarrow> int_to_float n = Inr d \<Longrightarrow> d \<noteq> 0"
  using fl_pos[of "real n"] by (auto simp: int_to_float_def split: if_splits)

lemma check_terminate_branch_exact:
  assumes "1 \<le> n" "n < 2 ^ 53" "is_double (pval_thresh (test_method b) / real n)"
  shows "check_terminate_branch b p n = Inr (p \<ge> pval_thresh (test_method b) / real n)"
  using assms by (simp add: check_terminate_branch_def int_to_float_small fl_double)

subsection \<open>Index translation\<close>

lemma foldl_add_back_skip:
  "\<forall>g\<in>set gs. i < g \<Longrightarrow> foldl (\<lambda>r g. if g \<le> r then r + 1 else r) (i::int) gs = i"
  by (induction gs) auto

lemma add_back_foldl:
  "sorted gs \<Longrightarrow> add_back gs i = foldl (\<lambda>r g. if g \<le> r then r + 1 else r) i gs"
proof (induction gs arbitrary: i)
  case Nil
  then show ?case by simp
next
  case (Cons g gs)
  show ?case
  proof (cases "g > i")
    case True
    with Cons.prems have "\<forall>x\<in>set gs. i < x" by auto
    then show ?thesis using True by (simp add: foldl_add_back_skip)
  next
    case False
    with Cons show ?thesis by simp
  qed
qed

lemma add_back_count:
  "sorted gs \<Longrightarrow> distinct gs \<Longrightarrow> \<forall>g\<in>set gs. lo \<le> g \<Longrightarrow> lo \<le> i
     \<Longrightarrow> card ({lo ..< add_back gs i} - set gs) = nat (i - lo)"
proof (induction gs arbitrary: lo i)
  case Nil
  then show ?case by simp
next
  case (Cons g gs)
  show ?case
  proof (cases "g > i")
    case True
    with Cons.prems have "{lo ..< i} - set (g # gs) = {lo ..< i}" by auto
    with True show ?thesis by simp
  next
    case False
    let ?r = "add_back gs (i + 1)"
    have above: "\<forall>x\<in>set gs. g + 1 \<le> x"
    proof
      fix x assume x: "x \<in> set gs"
      with Cons.prems(1) have "g \<le> x" by simp
      moreover from x Cons.prems(2) have "g \<noteq> x" by auto
      ultimately show "g + 1 \<le> x" by simp
    qed
    have sd: "sorted gs" "distinct gs" and le: "g + 1 \<le> i + 1"
      using Cons.prems False by auto
    have "card ({g + 1 ..< ?r} - set gs) = nat (i + 1 - (g + 1))"
      by (rule Cons.IH[OF sd above le])
    moreover have "i + 1 \<le> ?r" by (rule add_back_ge)
    then have "{lo ..< ?r} - set (g # gs) = {lo ..< g} \<union> ({g + 1 ..< ?r} - set gs)"
      using False Cons.prems above by fastforce
    moreover have "{lo ..< g} \<inter> ({g + 1 ..< ?r} - set gs) = {}" by auto
    ultimately have "card ({lo ..< ?r} - set (g # gs)) = nat (g - lo) + nat (i - g)"
      by (simp add: card_Un_disjoint)
    moreover have "lo \<le> g" "g \<le> i" using False Cons.prems by auto
    then have "nat (g - lo) + nat (i - g) = nat (i - lo)" by linarith
    ultimately show ?thesis using False by simp
  qed
qed

text \<open>
  C1, as stated, at its own example. The haplotype holds the variants 2, 5 and 7 and the
  compacted index is 3. The loop visits 2 (not above 3, so the index becomes 4) and
  stops at 5, which is above 4: the translated index is 4, not 6. The candidates left
  are 0, 1, 3, 4, 6, 8, 9, and the one at position 3 is indeed variant 4.
\<close>

theorem translate_example_counterexample: "translate_index hap_257 3 \<noteq> 6"
  by (simp add: translate_index_def hap_257_def node_indices_def)

text \<open>
  C1, amended. Step 5 of \<^verbatim>\<open>_find_split\<close> adds one position for every index of the
  haplotype, taken in ascending order, that is less than or equal to the running
  position. The result is never an index of the haplotype; when these indices are
  distinct and not negative, exactly \<open>k\<close> variants that are not in the haplotype lie
  below it, so that it is the true index of the candidate at the compacted position
  \<open>k\<close>. For the haplotype over 2, 5 and 7 and the compacted index 3 it is 4.
\<close>

theorem index_translation:
  "translate_index h k
     = foldl (\<lambda>r g. if g \<le> r then r + 1 else r) (int k) (sort (node_indices h))
   \<and> (distinct (node_indices h) \<and> (\<forall>g\<in>set (node_indices h). 0 \<le> g)
        \<longrightarrow> translate_index h k \<notin> set (node_indices h)
            \<and> card ({0 ..< translate_index h k} - set (node_indices h)) = k)
   \<and> translate_index hap_257 3 = 4"
proof (intro conjI impI)
  show "translate_index h k
     = foldl (\<lambda>r g. if g \<le> r then r + 1 else r) (int k) (sort (node_indices h))"
    by (simp add: translate_index_def add_back_foldl)
next
  assume "distinct (node_indices h) \<and> (\<forall>g\<in>set (node_indices h). 0 \<le> g)"
  then show "card ({0 ..< translate_index h k} - set (node_indices h)) = k"
    using add_back_count[of "sort (node_indices h)" 0 "int k"]
    by (simp add: translate_index_def)
next
  show "translate_index h k \<notin> set (node_indices h)"
    by (rule translate_index_fresh)
next
  show "translate_index hap_257 3 = 4"
    by (simp add: translate_index_def hap_257_def node_indices_def)
qed

text \<open>The amended C1 at the haplotype over 5, 2 and 7.\<close>

theorem index_translation_witness:
  "distinct (node_indices hap_257) \<and> sort (node_indices hap_257) = [2, 5, 7]
   \<and> translate_index hap_257 3 = 4
   \<and> card ({0 ..< 4} - set (node_indices hap_257)) = 3"
proof -
  have d: "distinct (node_indices hap_257) \<and> (\<forall>g\<in>set (node_indices hap_257). 0 \<le> g)"
    by (simp add: hap_257_def node_indices_def)
  from index_translation[of hap_257 3] d
  have "translate_index hap_257 3 = 4"
    and "card ({0 ..< translate_index hap_257 3} - set (node_indices hap_257)) = 3"
    by blast+
  moreover have "sort (node_indices hap_257) = [2, 5, 7]"
    by (simp add: hap_257_def node_indices_def)
  ultimately show ?thesis using d by simp
qed

subsection \<open>Termination policy\<close>

lemma fl_third_of_005: "fl (double_005 / 3) = third_of_005"
  unfolding double_005_def third_of_005_def
  by (subst fl_eval[where k="-6"]) (simp_all add: round_half_even_def)

lemma is_double_005: "is_double double_005" "is_double third_of_005"
  unfolding is_double_def double_005_def third_of_005_def
  by (rule exI[of _ 3602879701896397], rule exI[of _ "-56"], simp,
      rule exI[of _ 4803839602528529], rule exI[of _ "-58"], simp)

text \<open>
  C2, as stated, with the exact quotient. The threshold is 0.05 and there are three
  candidates. The quotient that Python computes is the double nearest to a third of the
  threshold, which lies below the exact third. For the p-value equal to this double the
  source compares the p-value with itself and returns true, while the p-value is less
  than the threshold divided by three.
\<close>

theorem termination_law_counterexample:
  "is_double (pval_thresh (test_method builder_005)) \<and> is_double third_of_005
   \<and> check_terminate_branch builder_005 third_of_005 3 = Inr True
   \<and> \<not> third_of_005 \<ge> pval_thresh (test_method builder_005) / real 3"
proof -
  have t: "pval_thresh (test_method builder_005) = double_005"
    by (simp add: builder_005_def)
  have "int_to_float 3 = Inr (real 3)" by (rule int_to_float_small) simp
  then have "check_terminate_branch builder_005 third_of_005 3 = Inr True"
    by (simp add: check_terminate_branch_def t fl_third_of_005)
  moreover have "\<not> third_of_005 \<ge> double_005 / real 3"
    by (simp add: double_005_def third_of_005_def)
  ultimately show ?thesis using t is_double_005 by simp
qed

text \<open>
  C2, amended. For every p-value and every number of candidates \<open>n \<ge> 1\<close>,
  \<^verbatim>\<open>check_terminate_branch\<close> returns true if and only if the p-value is at least the
  quotient of the threshold by \<open>n\<close> as Python computes it, the double nearest to the
  exact quotient; at equality with this double it returns true. (Beyond the range of the
  doubles the conversion of \<open>n\<close> raises \<^verbatim>\<open>OverflowError\<close>.) For \<open>n < 2 ^ 53\<close> the
  conversion of \<open>n\<close> is exact, and then: whenever the p-value is at least the exact
  quotient of a positive threshold, the result is true; and when the exact quotient is
  itself a double, the result is true if and only if the p-value is at least the exact
  quotient.
\<close>

theorem termination_law:
  assumes "1 \<le> n"
  shows "check_terminate_branch b p n =
           (if real n < 2 ^ 1024 - 2 ^ 970
            then Inr (p \<ge> fl (pval_thresh (test_method b) / fl (real n)))
            else Inl OverflowError)
       \<and> (n < 2 ^ 53 \<longrightarrow>
            fl (real n) = real n
          \<and> (is_double p \<and> 0 < pval_thresh (test_method b)
               \<and> p \<ge> pval_thresh (test_method b) / real n
             \<longrightarrow> check_terminate_branch b p n = Inr True)
          \<and> (is_double (pval_thresh (test_method b) / real n)
             \<longrightarrow> check_terminate_branch b p n
                   = Inr (p \<ge> pval_thresh (test_method b) / real n)))"
proof (intro conjI impI)
  have "fl (real n) \<noteq> 0" using fl_pos[of "real n"] assms by simp
  then show "check_terminate_branch b p n =
           (if real n < 2 ^ 1024 - 2 ^ 970
            then Inr (p \<ge> fl (pval_thresh (test_method b) / fl (real n)))
            else Inl OverflowError)"
    by (simp add: check_terminate_branch_def int_to_float_def)
next
  assume "n < 2 ^ 53"
  then show "fl (real n) = real n" by (simp add: fl_double is_double_of_nat)
next
  assume n: "n < 2 ^ 53"
    and p: "is_double p \<and> 0 < pval_thresh (test_method b)
              \<and> p \<ge> pval_thresh (test_method b) / real n"
  let ?q = "pval_thresh (test_method b) / real n"
  from p assms have "0 < ?q" by simp
  with p have "fl ?q \<le> p" by (intro fl_le_double) simp_all
  then show "check_terminate_branch b p n = Inr True"
    using assms n by (simp add: check_terminate_branch_def int_to_float_small)
next
  assume "n < 2 ^ 53" "is_double (pval_thresh (test_method b) / real n)"
  with assms show "check_terminate_branch b p n
                   = Inr (p \<ge> pval_thresh (test_method b) / real n)"
    by (rule check_terminate_branch_exact)
qed

text \<open>
  The amended C2 at a boundary: the threshold \<open>1 / 16\<close>, two candidates and the p-value
  \<open>1 / 32\<close>, which is the exact quotient and a double.
\<close>

theorem termination_law_witness:
  "check_terminate_branch ex_builder (1 / 32) 2 = Inr True
   \<and> fl (real 2) = real 2
   \<and> pval_thresh (test_method ex_builder) / real 2 = 1 / 32"
proof -
  have d: "is_double (1 / 32)"
    unfolding is_double_def by (rule exI[of _ 1], rule exI[of _ "-5"]) simp
  have t: "pval_thresh (test_method ex_builder) / real 2 = 1 / 32"
    by (simp add: ex_builder_def)
  have n: "(1::nat) \<le> 2" "(2::nat) < 2 ^ 53" by simp_all
  have p: "0 < pval_thresh (test_method ex_builder)"
    "1 / 32 \<ge> pval_thresh (test_method ex_builder) / real 2"
    by (simp_all add: ex_builder_def)
  note T = termination_law[OF n(1), of ex_builder "1 / 32"]
  from T n(2) have "fl (real 2) = real 2" by blast
  moreover from T n(2) d p have "check_terminate_branch ex_builder (1 / 32) 2 = Inr True"
    by blast
  ultimately show ?thesis using t by blast
qed

lemma ex_check_1:
  "pval_thresh (test_method b) = 1 / 16 \<Longrightarrow> check_terminate_branch b p (Suc 0) = Inr (1 / 16 \<le> p)"
proof -
  assume t: "pval_thresh (test_method b) = 1 / 16"
  have "is_double (pval_thresh (test_method b) / real (Suc 0))"
    unfolding t is_double_def by (rule exI[of _ 1], rule exI[of _ "-4"]) simp
  from check_terminate_branch_exact[OF _ _ this, of p] t show ?thesis by simp
qed

lemma ex_check_2:
  "pval_thresh (test_method b) = 1 / 16
     \<Longrightarrow> check_terminate_branch b p (Suc (Suc 0)) = Inr (1 / 32 \<le> p)"
proof -
  assume t: "pval_thresh (test_method b) = 1 / 16"
  have "is_double (pval_thresh (test_method b) / real (Suc (Suc 0)))"
    unfolding t is_double_def by (rule exI[of _ 1], rule exI[of _ "-5"]) simp
  from check_terminate_branch_exact[OF _ _ this, of p] t show ?thesis by simp
qed

subsection \<open>The scenario, evaluated\<close>

lemmas ex_defs =
  run_def create_tree_def ex_builder_def flaky_builder_def ex_gens_def ex_tree_def
  ex_variant_def ex_hit_def ex_hap_1_def ex_hap_10_def
  py_getitem_def from_np_def new_tree_def data_column_def from_node_def append_hap_def
  find_split_def transform_def candidate_columns_def node_indices_def sum_axis2_def
  ex_run_def flaky_run_def ex_pval_def argmin_def ex_check_1 ex_check_2
  translate_index_def add_node_def Let_def

lemma run_ex_builder: "run ex_builder 0 s = (Inr ex_tree, ex_builder\<lparr>tree := Some ex_tree\<rparr>, s + 4)"
  by (simp add: ex_defs)


subsection \<open>Single use\<close>

text \<open>
  C3. When \<^verbatim>\<open>run\<close> has returned a tree, the builder holds that tree, and any further
  call of \<^verbatim>\<open>run\<close> on it, with any root and any state of the engine, raises the
  \<^verbatim>\<open>AssertionError\<close> and leaves the builder, its tree included, and the engine as they
  were.
\<close>

theorem single_use:
  assumes "run b root_idx s = (Inr t, b1, s1)"
  shows "tree b1 = Some t \<and> run b1 root_idx' s' = (Inl AssertionError, b1, s')"
proof -
  from assms have "tree b1 = Some t"
    by (auto simp: run_def Let_def split: if_splits sum.splits prod.splits option.splits)
  then show ?thesis by (simp add: run_def)
qed

text \<open>
  C3 on the scenario: the first call builds the tree of three nodes, the second raises.
\<close>

theorem single_use_witness:
  "run ex_builder 0 0 = (Inr ex_tree, ex_builder\<lparr>tree := Some ex_tree\<rparr>, 4)
   \<and> run (ex_builder\<lparr>tree := Some ex_tree\<rparr>) 1 4
        = (Inl AssertionError, ex_builder\<lparr>tree := Some ex_tree\<rparr>, 4)
   \<and> tree (ex_builder\<lparr>tree := Some ex_tree\<rparr>) = Some ex_tree"
proof -
  have r: "run ex_builder 0 0 = (Inr ex_tree, ex_builder\<lparr>tree := Some ex_tree\<rparr>, 4)"
    using run_ex_builder[of 0] by simp
  from single_use[OF r, of 1 4] r show ?thesis by simp
qed

subsection \<open>Leaves\<close>

text \<open>
  C4. When the transform of the haplotype of a branch has no column,
  \<^verbatim>\<open>_find_split\<close> returns \<^verbatim>\<open>(None, None)\<close> and leaves the state of the engine
  untouched, and the loop goes on to the next allele with the same tree: no node is
  added. This holds for every engine, so also for one that counts its calls in its
  state: the engine is not called.
\<close>

theorem leaf_law:
  assumes "data_column (gens b) (idx parent) allele = Inr variant_gts"
    and "new_parent_hap =
           (case parent_hap of None \<Rightarrow> from_node parent allele variant_gts
            | Some h \<Rightarrow> append_hap h parent allele variant_gts)"
    and "length (transform new_parent_hap (gens b)) = 0"
  shows "find_split b new_parent_hap parent_idx allele s = (Inr (None, None), s)
       \<and> create_tree_loop b (allele # alleles) parent parent_hap parent_idx (t, s)
           = create_tree_loop b alleles parent parent_hap parent_idx (t, s)"
proof -
  have fs: "find_split b new_parent_hap parent_idx allele s = (Inr (None, None), s)"
    using assms(3) by (simp add: find_split_def)
  then show ?thesis using assms(1,2) by simp
qed

text \<open>
  C4 on the scenario, under the node of variant 2, where all three variants are in the
  haplotype: the tree and the call counter of the engine stay as they are.
\<close>

theorem leaf_law_witness:
  "find_split ex_builder (append_hap ex_hap_10 (ex_variant 2) 0 [True, True]) 2 0 3
     = (Inr (None, None), 3)
   \<and> create_tree_loop ex_builder [0] (ex_variant 2) (Some ex_hap_10) 2 (ex_tree, 3)
     = (None, ex_tree, 3)"
proof -
  have 1: "data_column (gens ex_builder) (idx (ex_variant 2)) 0 = Inr [True, True]"
    by (simp add: ex_defs)
  have 2: "append_hap ex_hap_10 (ex_variant 2) 0 [True, True] =
     (case Some ex_hap_10 of None \<Rightarrow> from_node (ex_variant 2) 0 [True, True]
      | Some h \<Rightarrow> append_hap h (ex_variant 2) 0 [True, True])"
    by simp
  have 3: "length (transform (append_hap ex_hap_10 (ex_variant 2) 0 [True, True])
              (gens ex_builder)) = 0"
    by (simp add: ex_defs)
  from leaf_law[OF 1 2 3, of 2 3 "[]" ex_tree] show ?thesis by simp
qed

subsection \<open>Selection of the best candidate\<close>

lemma argmin_loop_first_min:
  "k = length pre \<Longrightarrow> bi < k \<Longrightarrow> bv = pre ! bi \<Longrightarrow> \<forall>j<k. bv \<le> pre ! j
     \<Longrightarrow> \<forall>j<bi. bv < pre ! j
     \<Longrightarrow> argmin_loop ps k bi bv < length (pre @ ps)
         \<and> (\<forall>j<length (pre @ ps). (pre @ ps) ! argmin_loop ps k bi bv \<le> (pre @ ps) ! j)
         \<and> (\<forall>j<argmin_loop ps k bi bv. (pre @ ps) ! argmin_loop ps k bi bv < (pre @ ps) ! j)"
proof (induction ps arbitrary: pre k bi bv)
  case Nil
  then show ?case by simp
next
  case (Cons p ps)
  show ?case
  proof (cases "p < bv")
    case True
    have "argmin_loop ps (Suc k) k p < length ((pre @ [p]) @ ps)
         \<and> (\<forall>j<length ((pre @ [p]) @ ps).
               ((pre @ [p]) @ ps) ! argmin_loop ps (Suc k) k p \<le> ((pre @ [p]) @ ps) ! j)
         \<and> (\<forall>j<argmin_loop ps (Suc k) k p.
               ((pre @ [p]) @ ps) ! argmin_loop ps (Suc k) k p < ((pre @ [p]) @ ps) ! j)"
    proof (rule Cons.IH)
      show "Suc k = length (pre @ [p])" using Cons.prems by simp
      show "k < Suc k" by simp
      show "p = (pre @ [p]) ! k" using Cons.prems by simp
      show "\<forall>j<Suc k. p \<le> (pre @ [p]) ! j"
        using Cons.prems True by (auto simp: nth_append less_Suc_eq intro: less_imp_le order.strict_trans2)
      show "\<forall>j<k. p < (pre @ [p]) ! j"
        using Cons.prems True by (auto simp: nth_append intro: order.strict_trans2)
    qed
    with True show ?thesis by simp
  next
    case False
    have "argmin_loop ps (Suc k) bi bv < length ((pre @ [p]) @ ps)
         \<and> (\<forall>j<length ((pre @ [p]) @ ps).
               ((pre @ [p]) @ ps) ! argmin_loop ps (Suc k) bi bv \<le> ((pre @ [p]) @ ps) ! j)
         \<and> (\<forall>j<argmin_loop ps (Suc k) bi bv.
               ((pre @ [p]) @ ps) ! argmin_loop ps (Suc k) bi bv < ((pre @ [p]) @ ps) ! j)"
    proof (rule Cons.IH)
      show "Suc k = length (pre @ [p])" using Cons.prems by simp
      show "bi < Suc k" using Cons.prems by simp
      show "bv = (pre @ [p]) ! bi" using Cons.prems by (simp add: nth_append)
      show "\<forall>j<Suc k. bv \<le> (pre @ [p]) ! j"
        using Cons.prems False by (auto simp: nth_append less_Suc_eq)
      show "\<forall>j<bi. bv < (pre @ [p]) ! j"
        using Cons.prems by (auto simp: nth_append)
    qed
    with False show ?thesis by simp
  qed
qed

lemma argmin_first_min:
  assumes "argmin ps = Inr i"
  shows "i < length ps" "\<forall>j<length ps. ps ! i \<le> ps ! j" "\<forall>j<i. ps ! i < ps ! j"
proof -
  from assms obtain p rest where ps: "ps = p # rest" and i: "i = argmin_loop rest 1 0 p"
    by (auto simp: argmin_def split: list.splits)
  have "argmin_loop rest 1 0 p < length ([p] @ rest)
         \<and> (\<forall>j<length ([p] @ rest). ([p] @ rest) ! argmin_loop rest 1 0 p \<le> ([p] @ rest) ! j)
         \<and> (\<forall>j<argmin_loop rest 1 0 p. ([p] @ rest) ! argmin_loop rest 1 0 p < ([p] @ rest) ! j)"
    by (rule argmin_loop_first_min) auto
  with ps i show "i < length ps" "\<forall>j<length ps. ps ! i \<le> ps ! j" "\<forall>j<i. ps ! i < ps ! j"
    by simp_all
qed

lemma argmin_nonempty: "argmin ps = Inr i \<Longrightarrow> ps \<noteq> []"
  by (auto simp: argmin_def)

lemma argmin_total: "ps \<noteq> [] \<Longrightarrow> \<exists>i. argmin ps = Inr i"
  by (cases ps) (simp_all add: argmin_def)

text \<open>
  C5. At a node and allele with at least one candidate, where the engine has returned
  its results (there is at least one, as the engine returns one record per candidate),
  \<^verbatim>\<open>_find_split\<close> always selects a candidate: one
  whose p-value is the least of all candidates tested, and before which every candidate
  in the compacted order has a strictly larger p-value, so that of several candidates
  with the least p-value the first is taken. What \<^verbatim>\<open>_find_split\<close> returns is fixed by
  this candidate: its result alone when the policy terminates the branch, else its
  result and the variant that its compacted index translates to (or the exception of
  the policy or of the look-up of this variant). In particular every best result and
  every variant that \<^verbatim>\<open>_find_split\<close> returns are those of this candidate.
\<close>

theorem candidate_selection:
  assumes "transform h (gens b) \<noteq> []"
    and "method_run (test_method b) s (sum_axis2 (transform h (gens b))) (phens b)
           = (Some results, s')"
    and "results \<noteq> []"
  shows "\<exists>i<length results.
           (\<forall>j<length results. pval (results ! i) \<le> pval (results ! j))
         \<and> (\<forall>j<i. pval (results ! i) < pval (results ! j))
         \<and> find_split b h pidx a s =
             (case check_terminate_branch b (pval (results ! i)) (length results) of
                Inl e \<Rightarrow> (Inl e, s')
              | Inr True \<Rightarrow> (Inr (None, Some (results ! i)), s')
              | Inr False \<Rightarrow>
                  (case py_getitem (variants (gens b)) (translate_index h i) of
                     Inl e \<Rightarrow> (Inl e, s')
                   | Inr np_v \<Rightarrow>
                       (Inr (Some (from_np np_v (translate_index h i)), Some (results ! i)), s')))
         \<and> (\<forall>ov best s1. find_split b h pidx a s = (Inr (ov, Some best), s1)
               \<longrightarrow> best = results ! i \<and> (\<forall>v. ov = Some v \<longrightarrow> idx v = translate_index h i))"
proof -
  from assms(3) obtain i where i: "argmin (map pval results) = Inr i"
    using argmin_total[of "map pval results"] by auto
  from argmin_first_min[OF i] have m:
    "i < length results" "\<forall>j<length results. pval (results ! i) \<le> pval (results ! j)"
    "\<forall>j<i. pval (results ! i) < pval (results ! j)"
    by auto
  have eq: "find_split b h pidx a s =
             (case check_terminate_branch b (pval (results ! i)) (length results) of
                Inl e \<Rightarrow> (Inl e, s')
              | Inr True \<Rightarrow> (Inr (None, Some (results ! i)), s')
              | Inr False \<Rightarrow>
                  (case py_getitem (variants (gens b)) (translate_index h i) of
                     Inl e \<Rightarrow> (Inl e, s')
                   | Inr np_v \<Rightarrow>
                       (Inr (Some (from_np np_v (translate_index h i)), Some (results ! i)), s')))"
    using assms(1,2) i by (simp add: find_split_def Let_def split: sum.splits bool.splits)
  have "\<forall>ov best s1. find_split b h pidx a s = (Inr (ov, Some best), s1)
               \<longrightarrow> best = results ! i \<and> (\<forall>v. ov = Some v \<longrightarrow> idx v = translate_index h i)"
    unfolding eq by (auto simp: from_np_def split: sum.splits bool.splits)
  with m eq show ?thesis by blast
qed

subsection \<open>No division by zero\<close>

lemma py_getitem_error: "py_getitem xs j = Inl e \<Longrightarrow> e = IndexError"
  by (auto simp: py_getitem_def split: if_splits)

lemma argmin_error: "argmin ps = Inl e \<Longrightarrow> e = ValueError"
  by (auto simp: argmin_def split: list.splits)

lemma check_terminate_after_argmin:
  assumes "check_terminate_branch b q (length rs) = Inl ZeroDivisionError"
    and "argmin (map pval rs) = Inr j"
  shows False
proof -
  from assms(2) have "1 \<le> length rs" by (cases rs) (simp_all add: argmin_def)
  then have "0 < fl (real (length rs))" by (intro fl_pos) simp
  with assms(1) show False
    by (auto simp: check_terminate_branch_def int_to_float_def split: sum.splits if_splits)
qed

text \<open>
  C10. \<^verbatim>\<open>_find_split\<close> never raises \<^verbatim>\<open>ZeroDivisionError\<close>. In the model this
  exception has one source, the division in \<^verbatim>\<open>check_terminate_branch\<close> with
  \<^verbatim>\<open>num_tests = 0\<close>. The call is reached only after \<^verbatim>\<open>argmin\<close> has returned an
  index, and then there is at least one p-value.
\<close>

theorem division_guard:
  "fst (find_split b h pidx a s) \<noteq> Inl ZeroDivisionError
   \<and> (argmin (map pval results) = Inr i \<longrightarrow>
        1 \<le> length (map pval results)
        \<and> check_terminate_branch b p (length (map pval results)) \<noteq> Inl ZeroDivisionError)"
proof -
  have "fst (find_split b h pidx a s) \<noteq> Inl ZeroDivisionError"
    by (auto simp: find_split_def Let_def
        split: prod.splits option.splits sum.splits bool.splits
        dest: py_getitem_error argmin_error check_terminate_after_argmin)
  moreover have "argmin (map pval results) = Inr i \<longrightarrow> 1 \<le> length (map pval results)"
    by (auto simp: argmin_def split: list.splits)
  ultimately show ?thesis using check_terminate_after_argmin[of b p results i] by auto
qed


text \<open>
  C10 on the scenario, and for one p-value.
\<close>

theorem division_guard_witness:
  "fst (find_split ex_builder ex_hap_1 0 1 0) \<noteq> Inl ZeroDivisionError
   \<and> argmin (map pval [\<lparr>beta = 1, pval = 1 / 1024\<rparr>]) = Inr 0
   \<and> check_terminate_branch ex_builder (1 / 1024)
        (length (map pval [\<lparr>beta = 1, pval = 1 / 1024\<rparr>])) = Inr False"
proof -
  have a: "argmin (map pval [\<lparr>beta = 1, pval = 1 / 1024\<rparr>]) = Inr 0"
    by (simp add: argmin_def)
  have c: "check_terminate_branch ex_builder (1 / 1024)
        (length (map pval [\<lparr>beta = 1, pval = 1 / 1024\<rparr>])) = Inr False"
    by (simp add: ex_check_1 ex_builder_def)
  from division_guard[of ex_builder ex_hap_1 0 1 0 "[\<lparr>beta = 1, pval = 1 / 1024\<rparr>]" 0 "1 / 1024"]
  show ?thesis using a c by blast
qed

text \<open>
  C5 on the scenario, under variant 0 with allele 1: the candidates for the variants 1
  and 2 tie, and the first one, variant 1, is selected.
\<close>

theorem candidate_selection_witness:
  "method_run (test_method ex_builder) 0 (sum_axis2 (transform ex_hap_1 (gens ex_builder)))
       (phens ex_builder)
     = (Some [\<lparr>beta = 1, pval = 1 / 1024\<rparr>, \<lparr>beta = 1, pval = 1 / 1024\<rparr>], 1)
   \<and> find_split ex_builder ex_hap_1 0 1 0
     = (Inr (Some (ex_variant 1), Some \<lparr>beta = 1, pval = 1 / 1024\<rparr>), 1)
   \<and> idx (ex_variant 1) = translate_index ex_hap_1 0"
proof -
  let ?r = "\<lparr>beta = 1, pval = 1 / 1024\<rparr>"
  have run: "method_run (test_method ex_builder) 0
       (sum_axis2 (transform ex_hap_1 (gens ex_builder))) (phens ex_builder)
     = (Some [?r, ?r], 1)"
    by (simp add: ex_defs)
  have fs: "find_split ex_builder ex_hap_1 0 1 0 = (Inr (Some (ex_variant 1), Some ?r), 1)"
    by (simp add: ex_defs)
  have c: "transform ex_hap_1 (gens ex_builder) \<noteq> []" "[?r, ?r] \<noteq> []"
    by (simp_all add: ex_defs)
  from candidate_selection[OF c(1) run c(2), of 0 1] fs obtain i where
    i: "i < length [?r, ?r]" "\<forall>j<i. pval ([?r, ?r] ! i) < pval ([?r, ?r] ! j)"
       "idx (ex_variant 1) = translate_index ex_hap_1 i"
    by blast
  have "i = 0"
  proof (rule ccontr)
    assume "i \<noteq> 0"
    with i(1) have "i = 1" by simp
    with i(2) have "pval ([?r, ?r] ! 1) < pval ([?r, ?r] ! 0)" by blast
    then show False by simp
  qed
  with i(3) run fs show ?thesis by simp
qed

subsection \<open>Well-founded recursion\<close>

lemma data_column_Inr_nonneg:
  "data_column g i a = Inr gts \<Longrightarrow> 0 \<le> i \<Longrightarrow> i < int (length (data g))"
  by (auto simp: data_column_def split: sum.splits dest: py_getitem_Inr_nonneg)

lemma length_transform: "length (transform h g) = length (candidate_columns h g)"
  by (simp add: transform_def)

lemma node_indices_append_hap: "node_indices (append_hap h v a gts) = node_indices h @ [idx v]"
  by (simp add: node_indices_def append_hap_def)

lemma candidate_columns_append_less:
  assumes "0 \<le> idx v" "idx v < int (length (data g))" "idx v \<notin> set (node_indices h)"
  shows "length (candidate_columns (append_hap h v a gts) g) < length (candidate_columns h g)"
proof -
  let ?P = "\<lambda>j. int j \<notin> set (node_indices h)"
  let ?Q = "\<lambda>j. int j \<noteq> idx v"
  have "candidate_columns (append_hap h v a gts) g = filter ?Q (candidate_columns h g)"
    by (auto simp: candidate_columns_def node_indices_append_hap intro: filter_cong)
  moreover have "nat (idx v) \<in> set (candidate_columns h g)"
    using assms by (simp add: candidate_columns_def)
  moreover have "\<not> ?Q (nat (idx v))" using assms by simp
  ultimately show ?thesis by (simp add: length_filter_less)
qed

text \<open>
  C9. Every call of the recursion lies in the accessible part of its call relation, so
  that no chain of recursive calls is infinite and \<^verbatim>\<open>run\<close> returns on every input.
  The reason is the one the claim gives: when \<^verbatim>\<open>_find_split\<close> has chosen a variant
  for a haplotype, the haplotype that the recursive call builds by appending this
  variant has strictly fewer candidate columns, and leaves strictly fewer variants of
  the variant table to choose from.
\<close>

theorem well_founded_recursion:
  "create_tree_loop_dom (b, alleles, parent, parent_hap, parent_idx, st)
   \<and> (find_split b h pidx a s = (Inr (Some v, r), s')
        \<longrightarrow> data_column (gens b) (idx v) a' = Inr gts
        \<longrightarrow> length (transform (append_hap h v a' gts) (gens b)) < length (transform h (gens b))
            \<and> remaining (gens b) (node_indices (append_hap h v a' gts))
                  < remaining (gens b) (node_indices h))"
proof (intro conjI impI)
  show "create_tree_loop_dom (b, alleles, parent, parent_hap, parent_idx, st)"
    using create_tree_loop_total by blast
next
  assume fs: "find_split b h pidx a s = (Inr (Some v, r), s')"
    and dc: "data_column (gens b) (idx v) a' = Inr gts"
  from find_split_Some[OF fs] dc
  show "length (transform (append_hap h v a' gts) (gens b)) < length (transform h (gens b))"
    by (simp add: length_transform candidate_columns_append_less data_column_Inr_nonneg)
  from find_split_Some[OF fs]
  show "remaining (gens b) (node_indices (append_hap h v a' gts))
          < remaining (gens b) (node_indices h)"
    by (simp add: node_indices_append_hap remaining_less)
qed

text \<open>
  C9 on the scenario: two candidates under variant 0 with allele 1, fewer once variant 1
  is appended.
\<close>

theorem well_founded_recursion_witness:
  "find_split ex_builder ex_hap_1 0 1 0
     = (Inr (Some (ex_variant 1), Some \<lparr>beta = 1, pval = 1 / 1024\<rparr>), 1)
   \<and> data_column (gens ex_builder) (idx (ex_variant 1)) 0 = Inr [True, True]
   \<and> length (transform ex_hap_10 (gens ex_builder)) < length (transform ex_hap_1 (gens ex_builder))
   \<and> length (transform ex_hap_1 (gens ex_builder)) = 2"
proof -
  have fs: "find_split ex_builder ex_hap_1 0 1 0
     = (Inr (Some (ex_variant 1), Some \<lparr>beta = 1, pval = 1 / 1024\<rparr>), 1)"
    by (simp add: ex_defs)
  have dc: "data_column (gens ex_builder) (idx (ex_variant 1)) 0 = Inr [True, True]"
    by (simp add: ex_defs)
  have l: "length (transform ex_hap_1 (gens ex_builder)) = 2"
    by (simp add: ex_defs)
  from well_founded_recursion[of ex_builder "[]" "ex_variant 0" None 0 "([], 0)" ex_hap_1 0 1 0
      "ex_variant 1" "Some \<lparr>beta = 1, pval = 1 / 1024\<rparr>" 1 0 "[True, True]"] fs dc
  have "length (transform (append_hap ex_hap_1 (ex_variant 1) 0 [True, True]) (gens ex_builder))
          < length (transform ex_hap_1 (gens ex_builder))"
    by blast
  with fs dc l show ?thesis by (simp add: ex_hap_10_def)
qed

subsection \<open>The arena\<close>

lemma parents_ok_from_append:
  "parents_ok_from i (xs @ ys) = (parents_ok_from i xs \<and> parents_ok_from (i + length xs) ys)"
  by (induction xs arbitrary: i) auto

lemma parents_ok_from_bound:
  "parents_ok_from i t \<Longrightarrow> n \<in> set t \<Longrightarrow> node_parent n = Some p \<Longrightarrow> Suc p < i + length t"
proof (induction t arbitrary: i)
  case Nil
  then show ?case by simp
next
  case (Cons x xs)
  show ?case
  proof (cases "n = x")
    case True
    with Cons.prems show ?thesis by simp
  next
    case False
    with Cons.prems have "n \<in> set xs" "parents_ok_from (Suc i) xs" by auto
    from Cons.IH[OF this(2) this(1) Cons.prems(3)] show ?thesis by simp
  qed
qed

lemma parents_ok_from_nth:
  "parents_ok_from k t \<Longrightarrow> i < length t
     \<Longrightarrow> (case node_parent (t ! i) of None \<Rightarrow> k + i = 0 | Some p \<Rightarrow> p < k + i)"
proof (induction t arbitrary: k i)
  case Nil
  then show ?case by simp
next
  case (Cons x xs)
  show ?case
  proof (cases i)
    case 0
    with Cons.prems show ?thesis by (simp split: option.splits)
  next
    case (Suc j)
    with Cons.prems have "parents_ok_from (Suc k) xs" "j < length xs" by auto
    from Cons.IH[OF this] Suc show ?thesis by (auto split: option.splits)
  qed
qed

lemma grown_refl: "grown p as t t"
  by (simp add: grown_def)

lemma grown_more_alleles: "grown p as t t' \<Longrightarrow> grown p (a # as) t t'"
  by (fastforce simp: grown_def)

lemma free_slots_fewer: "free_slots p (a # as) t \<Longrightarrow> free_slots p as t"
  by (auto simp: free_slots_def)

lemma add_node_arena:
  assumes "add_node t v p a r = Inr (t1, n)" "arena_ok t" "free_slots p (a # as) t"
  shows "n = length t" "arena_ok t1" "n < length t1" "free_slots n [0, 1] t1"
    "t1 = t @ [\<lparr>node_variant = v, node_parent = Some p, node_allele = Some a, node_results = r\<rparr>]"
    "p < length t"
proof -
  let ?nd = "\<lparr>node_variant = v, node_parent = Some p, node_allele = Some a, node_results = r\<rparr>"
  from assms(1) show p: "p < length t" and n: "n = length t" and t1: "t1 = t @ [?nd]"
    by (auto simp: add_node_def split: if_splits)
  from t1 n show "n < length t1" by simp
  have "slot ?nd \<notin> slot ` set t"
    using assms(3) by (auto simp: free_slots_def slot_def)
  with assms(2) p show ok: "arena_ok t1"
    by (simp add: arena_ok_def t1 parents_ok_from_append)
  show "free_slots n [0, 1] t1"
    unfolding free_slots_def
  proof (intro ballI impI)
    fix x assume "x \<in> set t1" "node_parent x = Some n"
    with ok have "Suc n < 0 + length t1"
      by (intro parents_ok_from_bound) (auto simp: arena_ok_def)
    then show "node_allele x \<notin> Some ` set [0, 1]" using n t1 by simp
  qed
qed


lemma grown_under_new_node:
  assumes "grown (length t) [0, 1] (t @ [nd]) t2"
    and "node_parent nd = Some p" "node_allele nd = Some a"
    and "p < length t" "free_slots p (a # as) t" "a \<notin> set as"
  shows "free_slots p as t2" "grown p (a # as) t t2" "p < length t2"
proof -
  from assms(1) obtain ext where t2: "t2 = (t @ [nd]) @ ext"
    and ext: "\<forall>n\<in>set ext. \<exists>q. node_parent n = Some q \<and>
                ((q = length t \<and> node_allele n \<in> Some ` set [0, 1]) \<or> length (t @ [nd]) \<le> q)"
    unfolding grown_def by blast
  from ext have far: "\<forall>n\<in>set ext. \<exists>q. node_parent n = Some q \<and> length t \<le> q"
    by fastforce
  show "p < length t2" using t2 assms(4) by simp
  show "free_slots p as t2"
    unfolding free_slots_def
  proof (intro ballI impI)
    fix n assume n: "n \<in> set t2" "node_parent n = Some p"
    from n(1) t2 consider "n \<in> set t" | "n = nd" | "n \<in> set ext" by auto
    then show "node_allele n \<notin> Some ` set as"
    proof cases
      case 1
      with assms(5) n(2) show ?thesis by (auto simp: free_slots_def)
    next
      case 2
      with assms(3,6) show ?thesis by auto
    next
      case 3
      with far n(2) assms(4) show ?thesis by fastforce
    qed
  qed
  have "t2 = t @ (nd # ext)" using t2 by simp
  moreover have "\<forall>n\<in>set (nd # ext). \<exists>q. node_parent n = Some q \<and>
                ((q = p \<and> node_allele n \<in> Some ` set (a # as)) \<or> length t \<le> q)"
    using far assms(2,3) by auto
  ultimately show "grown p (a # as) t t2" unfolding grown_def by blast
qed

lemma grown_trans:
  assumes "grown p (a # as) t t2" "grown p as t2 t3"
  shows "grown p (a # as) t t3"
proof -
  from assms(1) obtain e1 where E1: "t2 = t @ e1"
    "\<forall>n\<in>set e1. \<exists>q. node_parent n = Some q \<and>
        ((q = p \<and> node_allele n \<in> Some ` set (a # as)) \<or> length t \<le> q)"
    unfolding grown_def by blast
  from assms(2) obtain e2 where E2: "t3 = t2 @ e2"
    "\<forall>n\<in>set e2. \<exists>q. node_parent n = Some q \<and>
        ((q = p \<and> node_allele n \<in> Some ` set as) \<or> length t2 \<le> q)"
    unfolding grown_def by blast
  have "t3 = t @ (e1 @ e2)" using E1(1) E2(1) by simp
  moreover have "\<forall>n\<in>set (e1 @ e2). \<exists>q. node_parent n = Some q \<and>
        ((q = p \<and> node_allele n \<in> Some ` set (a # as)) \<or> length t \<le> q)"
  proof
    fix n assume "n \<in> set (e1 @ e2)"
    then consider "n \<in> set e1" | "n \<in> set e2" by auto
    then show "\<exists>q. node_parent n = Some q \<and>
        ((q = p \<and> node_allele n \<in> Some ` set (a # as)) \<or> length t \<le> q)"
    proof cases
      case 1
      with E1(2) show ?thesis by blast
    next
      case 2
      with E2(2) obtain q where "node_parent n = Some q"
        "(q = p \<and> node_allele n \<in> Some ` set as) \<or> length t2 \<le> q" by blast
      with E1(1) show ?thesis by auto
    qed
  qed
  ultimately show ?thesis unfolding grown_def by blast
qed

lemma create_tree_loop_arena:
  "arena_ok (fst st) \<Longrightarrow> parent_idx < length (fst st) \<Longrightarrow> distinct alleles
     \<Longrightarrow> free_slots parent_idx alleles (fst st)
     \<Longrightarrow> arena_ok (fst (snd (create_tree_loop b alleles parent parent_hap parent_idx st)))
       \<and> grown parent_idx alleles (fst st)
           (fst (snd (create_tree_loop b alleles parent parent_hap parent_idx st)))"
proof (induction b alleles parent parent_hap parent_idx st rule: create_tree_loop.induct)
  case (1 b parent parent_hap parent_idx st)
  then show ?case by (simp add: grown_refl)
next
  case (2 b allele alleles parent parent_hap parent_idx st)
  note ok = "2.prems"(1) and lt = "2.prems"(2) and fr = "2.prems"(4)
  from "2.prems"(3) have da: "distinct alleles" and an: "allele \<notin> set alleles" by auto
  let ?call = "create_tree_loop b (allele # alleles) parent parent_hap parent_idx st"
  show ?case
  proof (cases "data_column (gens b) (idx parent) allele")
    case (Inl e)
    then show ?thesis using ok by (simp add: grown_refl)
  next
    case (Inr gts)
    let ?nh = "case parent_hap of None \<Rightarrow> from_node parent allele gts
               | Some h \<Rightarrow> append_hap h parent allele gts"
    obtain res s' where fs: "find_split b ?nh parent_idx allele (snd st) = (res, s')"
      by (cases "find_split b ?nh parent_idx allele (snd st)")
    show ?thesis
    proof (cases res)
      case (Inl e)
      then show ?thesis using Inr fs ok by (simp add: grown_refl)
    next
      case res: (Inr pr)
      obtain ov r where pr: "pr = (ov, r)" by (cases pr)
      show ?thesis
      proof (cases ov)
        case None
        have "arena_ok (fst (snd (create_tree_loop b alleles parent parent_hap parent_idx (fst st, s'))))
            \<and> grown parent_idx alleles (fst (fst st, s'))
                (fst (snd (create_tree_loop b alleles parent parent_hap parent_idx (fst st, s'))))"
          using ok lt da free_slots_fewer[OF fr]
          by (intro "2.IH"(1)[OF Inr refl fs[symmetric] res pr[symmetric] None]) simp_all
        moreover have "?call = create_tree_loop b alleles parent parent_hap parent_idx (fst st, s')"
          using Inr fs res pr None by simp
        ultimately show ?thesis by (simp add: grown_more_alleles)
      next
        case (Some v)
        show ?thesis
        proof (cases "add_node (fst st) v parent_idx allele r")
          case (Inl e)
          then show ?thesis using Inr fs res pr Some ok by (simp add: grown_refl)
        next
          case an_ok: (Inr tn)
          obtain t1 n where tn: "tn = (t1, n)" by (cases tn)
          note A = add_node_arena[OF an_ok[unfolded tn] ok fr]
          obtain e2 st2 where nested:
            "create_tree_loop b [0, 1] v (Some ?nh) n (t1, s') = (e2, st2)"
            by (cases "create_tree_loop b [0, 1] v (Some ?nh) n (t1, s')")
          have "arena_ok (fst (snd (create_tree_loop b [0, 1] v (Some ?nh) n (t1, s'))))
            \<and> grown n [0, 1] (fst (t1, s'))
                (fst (snd (create_tree_loop b [0, 1] v (Some ?nh) n (t1, s'))))"
            using A
            by (intro "2.IH"(2)[OF Inr refl fs[symmetric] res pr[symmetric] Some an_ok tn[symmetric]])
              simp_all
          with nested have ok2: "arena_ok (fst st2)" and g2: "grown n [0, 1] t1 (fst st2)"
            by simp_all
          from g2 A(1,5) have g2': "grown (length (fst st)) [0, 1]
              (fst st @ [\<lparr>node_variant = v, node_parent = Some parent_idx,
                           node_allele = Some allele, node_results = r\<rparr>]) (fst st2)"
            by simp
          note G = grown_under_new_node[OF g2' _ _ lt fr an, simplified]
          show ?thesis
          proof (cases e2)
            case (Some e)
            then have "?call = (Some e, st2)"
              using Inr fs res pr \<open>ov = Some v\<close> an_ok tn nested by simp
            then show ?thesis using ok2 G(2) by simp
          next
            case None
            have "arena_ok (fst (snd (create_tree_loop b alleles parent parent_hap parent_idx st2)))
              \<and> grown parent_idx alleles (fst st2)
                  (fst (snd (create_tree_loop b alleles parent parent_hap parent_idx st2)))"
              using ok2 G da
              by (intro "2.IH"(3)[OF Inr refl fs[symmetric] res pr[symmetric] \<open>ov = Some v\<close>
                    an_ok tn[symmetric] nested[symmetric] None]) simp_all
            moreover have "?call = create_tree_loop b alleles parent parent_hap parent_idx st2"
              using Inr fs res pr \<open>ov = Some v\<close> an_ok tn nested None by simp
            ultimately show ?thesis using G(2) by (auto intro: grown_trans)
          qed
        qed
      qed
    qed
  qed
qed


lemma run_builds_arena:
  assumes "tree b = None" "run b root_idx s = (res, b1, s1)" "tree b1 = Some t"
  shows "arena_ok t \<and> t \<noteq> []"
proof -
  from assms obtain np_v where np: "py_getitem (variants (gens b)) root_idx = Inr np_v"
    by (auto simp: run_def split: sum.splits)
  let ?r = "from_np np_v root_idx"
  let ?c = "create_tree_loop b [0, 1] ?r None 0 (new_tree ?r, s)"
  from assms np have t: "t = fst (snd ?c)"
    by (auto simp: run_def create_tree_def Let_def split: prod.splits option.splits)
  have "arena_ok (fst (snd ?c)) \<and> grown 0 [0, 1] (fst (new_tree ?r, s)) (fst (snd ?c))"
    by (rule create_tree_loop_arena) (simp_all add: arena_ok_def free_slots_def new_tree_def)
  then show ?thesis unfolding t by (auto simp: grown_def new_tree_def)
qed

lemma run_Inr_tree: "run b root_idx s = (Inr t, b1, s1) \<Longrightarrow> tree b = None \<and> tree b1 = Some t"
  by (auto simp: run_def Let_def split: if_splits sum.splits prod.splits option.splits)

text \<open>
  C6. The tree that \<^verbatim>\<open>run\<close> returns is a valid arena, for every input: the parent
  index of a node is strictly less than the index of the node, every node but the root
  has a parent, and no two nodes have the same (parent index, allele) pair. A node is
  what one call of \<^verbatim>\<open>add_node\<close> appended, so the last part says that the builder
  calls \<^verbatim>\<open>add_node\<close> at most once per pair.
\<close>

theorem arena_invariant:
  assumes "run b root_idx s = (Inr t, b1, s1)"
  shows "arena_ok t
       \<and> (\<forall>i<length t. \<forall>p. node_parent (t ! i) = Some p \<longrightarrow> p < i)
       \<and> (\<forall>i<length t. 0 < i \<longrightarrow> node_parent (t ! i) \<noteq> None)
       \<and> (\<forall>i<length t. \<forall>j<length t. i \<noteq> j \<longrightarrow>
             (node_parent (t ! i), node_allele (t ! i)) \<noteq> (node_parent (t ! j), node_allele (t ! j)))"
proof -
  from run_Inr_tree[OF assms] have "tree b = None" "tree b1 = Some t" by simp_all
  from run_builds_arena[OF this(1) assms this(2)] have ok: "arena_ok t" by simp
  then have po: "parents_ok_from 0 t" and di: "distinct (map slot t)"
    by (simp_all add: arena_ok_def)
  have 1: "\<forall>i<length t. \<forall>p. node_parent (t ! i) = Some p \<longrightarrow> p < i"
  proof (intro allI impI)
    fix i p assume "i < length t" "node_parent (t ! i) = Some p"
    with parents_ok_from_nth[OF po, of i] show "p < i" by simp
  qed
  have 2: "\<forall>i<length t. 0 < i \<longrightarrow> node_parent (t ! i) \<noteq> None"
  proof (intro allI impI)
    fix i assume "i < length t" "0 < i"
    with parents_ok_from_nth[OF po, of i] show "node_parent (t ! i) \<noteq> None"
      by (auto split: option.splits)
  qed
  have 3: "\<forall>i<length t. \<forall>j<length t. i \<noteq> j \<longrightarrow>
             (node_parent (t ! i), node_allele (t ! i)) \<noteq> (node_parent (t ! j), node_allele (t ! j))"
  proof (intro allI impI)
    fix i j assume "i < length t" "j < length t" "i \<noteq> j"
    with di have "map slot t ! i \<noteq> map slot t ! j"
      by (simp add: distinct_conv_nth)
    with \<open>i < length t\<close> \<open>j < length t\<close>
    show "(node_parent (t ! i), node_allele (t ! i)) \<noteq> (node_parent (t ! j), node_allele (t ! j))"
      by (simp add: slot_def)
  qed
  from ok 1 2 3 show ?thesis by blast
qed

text \<open>
  C6 on the scenario.
\<close>

theorem arena_invariant_witness:
  "run ex_builder 0 0 = (Inr ex_tree, ex_builder\<lparr>tree := Some ex_tree\<rparr>, 4)
   \<and> arena_ok ex_tree \<and> length ex_tree = 3"
proof -
  have r: "run ex_builder 0 0 = (Inr ex_tree, ex_builder\<lparr>tree := Some ex_tree\<rparr>, 4)"
    using run_ex_builder[of 0] by simp
  from arena_invariant[OF r] r show ?thesis by (simp add: ex_tree_def)
qed

subsection \<open>Failures of the engine\<close>




subsection \<open>Determinism\<close>

lemma find_split_deterministic:
  assumes "deterministic (test_method b)"
  shows "fst (find_split b h pidx a s1) = fst (find_split b h pidx a s2)"
proof -
  let ?d = "sum_axis2 (transform h (gens b))"
  obtain r1 t1 where 1: "method_run (test_method b) s1 ?d (phens b) = (r1, t1)"
    by (cases "method_run (test_method b) s1 ?d (phens b)")
  obtain r2 t2 where 2: "method_run (test_method b) s2 ?d (phens b) = (r2, t2)"
    by (cases "method_run (test_method b) s2 ?d (phens b)")
  from assms have "fst (method_run (test_method b) s1 ?d (phens b))
                     = fst (method_run (test_method b) s2 ?d (phens b))"
    unfolding deterministic_def by blast
  with 1 2 have "r1 = r2" by simp
  with 1 2 show ?thesis
    by (simp add: find_split_def Let_def split: option.splits sum.splits bool.splits)
qed

lemma create_tree_loop_deterministic:
  "deterministic (test_method b)
     \<Longrightarrow> fst (create_tree_loop b alleles parent parent_hap parent_idx (fst st, s2))
           = fst (create_tree_loop b alleles parent parent_hap parent_idx st)
       \<and> fst (snd (create_tree_loop b alleles parent parent_hap parent_idx (fst st, s2)))
           = fst (snd (create_tree_loop b alleles parent parent_hap parent_idx st))"
proof (induction b alleles parent parent_hap parent_idx st arbitrary: s2
    rule: create_tree_loop.induct)
  case (1 b parent parent_hap parent_idx st)
  then show ?case by simp
next
  case (2 b allele alleles parent parent_hap parent_idx st)
  note det = "2.prems"
  let ?call = "create_tree_loop b (allele # alleles) parent parent_hap parent_idx st"
  let ?call2 = "create_tree_loop b (allele # alleles) parent parent_hap parent_idx (fst st, s2)"
  show ?case
  proof (cases "data_column (gens b) (idx parent) allele")
    case (Inl e)
    then show ?thesis by simp
  next
    case (Inr gts)
    let ?nh = "case parent_hap of None \<Rightarrow> from_node parent allele gts
               | Some h \<Rightarrow> append_hap h parent allele gts"
    obtain res s' where fs: "find_split b ?nh parent_idx allele (snd st) = (res, s')"
      by (cases "find_split b ?nh parent_idx allele (snd st)")
    obtain res2 s2' where fs2': "find_split b ?nh parent_idx allele s2 = (res2, s2')"
      by (cases "find_split b ?nh parent_idx allele s2")
    from find_split_deterministic[OF det, of ?nh parent_idx allele "snd st" s2] fs fs2'
    have "res2 = res" by simp
    with fs2' have fs2: "find_split b ?nh parent_idx allele s2 = (res, s2')" by simp
    show ?thesis
    proof (cases res)
      case (Inl e)
      then show ?thesis using Inr fs fs2 by simp
    next
      case res: (Inr pr)
      obtain ov r where pr: "pr = (ov, r)" by (cases pr)
      show ?thesis
      proof (cases ov)
        case None
        have "?call = create_tree_loop b alleles parent parent_hap parent_idx (fst st, s')"
          using Inr fs res pr None by simp
        moreover
        have "?call2 = create_tree_loop b alleles parent parent_hap parent_idx (fst st, s2')"
          using Inr fs2 res pr None by simp
        moreover note "2.IH"(1)[OF Inr refl fs[symmetric] res pr[symmetric] None det, of s2']
        ultimately show ?thesis by simp
      next
        case (Some v)
        show ?thesis
        proof (cases "add_node (fst st) v parent_idx allele r")
          case (Inl e)
          then show ?thesis using Inr fs fs2 res pr Some by simp
        next
          case an_ok: (Inr tn)
          obtain t1 n where tn: "tn = (t1, n)" by (cases tn)
          obtain e2 st2 where nested:
            "create_tree_loop b [0, 1] v (Some ?nh) n (t1, s') = (e2, st2)"
            by (cases "create_tree_loop b [0, 1] v (Some ?nh) n (t1, s')")
          obtain e2' st2' where nested2:
            "create_tree_loop b [0, 1] v (Some ?nh) n (t1, s2') = (e2', st2')"
            by (cases "create_tree_loop b [0, 1] v (Some ?nh) n (t1, s2')")
          from "2.IH"(2)[OF Inr refl fs[symmetric] res pr[symmetric] Some an_ok tn[symmetric] det,
              of s2'] nested nested2
          have same: "e2' = e2" "fst st2' = fst st2" by simp_all
          show ?thesis
          proof (cases e2)
            case (Some e)
            have "?call = (Some e, st2)"
              using Inr fs res pr \<open>ov = Some v\<close> an_ok tn nested Some by simp
            moreover have "?call2 = (Some e, st2')"
              using Inr fs2 res pr \<open>ov = Some v\<close> an_ok tn nested2 same Some by simp
            ultimately show ?thesis using same by simp
          next
            case None
            have "?call = create_tree_loop b alleles parent parent_hap parent_idx st2"
              using Inr fs res pr \<open>ov = Some v\<close> an_ok tn nested None by simp
            moreover
            have "st2' = (fst st2, snd st2')" using same by (cases st2') simp
            then have
              "?call2 = create_tree_loop b alleles parent parent_hap parent_idx (fst st2, snd st2')"
              using Inr fs2 res pr \<open>ov = Some v\<close> an_ok tn nested2 same None by simp
            moreover note "2.IH"(3)[OF Inr refl fs[symmetric] res pr[symmetric] \<open>ov = Some v\<close>
                an_ok tn[symmetric] nested[symmetric] None det, of "snd st2'"]
            ultimately show ?thesis by simp
          qed
        qed
      qed
    qed
  qed
qed

text \<open>
  C7. With a deterministic engine, two runs of the same builder with the same root give
  the same result (the same tree, or the same exception) and leave the same builder,
  whatever state the engine is in at the start of either run, for instance the state
  that the first run has left behind. The tree lists the nodes in the order of the
  calls of \<^verbatim>\<open>add_node\<close>, each with the arguments of its call, so the two runs make the
  same calls.
\<close>

theorem determinism:
  assumes "deterministic (test_method b)"
  shows "fst (run b root_idx s1) = fst (run b root_idx s2)
       \<and> fst (snd (run b root_idx s1)) = fst (snd (run b root_idx s2))"
proof (cases "tree b \<noteq> None \<or> (\<exists>e. py_getitem (variants (gens b)) root_idx = Inl e)")
  case True
  then show ?thesis by (auto simp: run_def)
next
  case False
  then obtain np_v where np: "py_getitem (variants (gens b)) root_idx = Inr np_v"
    and n: "tree b = None"
    by (cases "py_getitem (variants (gens b)) root_idx") auto
  let ?r = "from_np np_v root_idx"
  from create_tree_loop_deterministic[OF assms, of "[0, 1]" ?r None 0 "(new_tree ?r, s1)" s2]
  have "fst (create_tree b ?r None 0 (new_tree ?r, s2)) = fst (create_tree b ?r None 0 (new_tree ?r, s1))"
    "fst (snd (create_tree b ?r None 0 (new_tree ?r, s2)))
       = fst (snd (create_tree b ?r None 0 (new_tree ?r, s1)))"
    by (simp_all add: create_tree_def)
  then show ?thesis using np n
    by (auto simp: run_def Let_def split: prod.splits option.splits)
qed

text \<open>
  C7 on the scenario: a fresh engine and one that has already served seven calls.
\<close>

theorem determinism_witness:
  "fst (run ex_builder 0 0) = fst (run ex_builder 0 7)
   \<and> fst (snd (run ex_builder 0 0)) = fst (snd (run ex_builder 0 7))
   \<and> fst (run ex_builder 0 0) = Inr ex_tree"
proof -
  have d: "deterministic (test_method ex_builder)"
    by (simp add: deterministic_def ex_builder_def ex_run_def)
  from determinism[OF d, of 0 0 7] run_ex_builder[of 0] show ?thesis by simp
qed

end
